theory Spec2Isabelle
  imports Main "HOL-Library.Word"
begin



section \<open>Session records (internal/model/session.go)\<close>

text \<open>
  Identities are Go \<open>int64\<close> values and the missed-beat counter is a Go \<open>int\<close>
  (64 bits on the platforms the gateway runs on), so both are 64-bit words: \<open>+\<close> wraps,
  and the comparison \<open>MissedBeats >= 3\<close> is the signed one. A transport handle
  (\<open>*websocket.Conn\<close>) is modelled by its identity, a natural number. A \<open>time.Time\<close> is
  a number of nanoseconds; \<open>time.Now()\<close> is a parameter of every operation that reads the
  clock.
\<close>

type_synonym int64 = "64 word"
type_synonym conn = nat
type_synonym time = int

record UserSession =
  UserID :: int64
  Username :: string
  Conn :: conn
  SessionID :: string
  ClientIP :: string
  LastHeartbeat :: time
  MissedBeats :: "64 word"

definition UpdateHeartbeat_session :: "time \<Rightarrow> UserSession \<Rightarrow> UserSession" where
  "UpdateHeartbeat_session now s = s\<lparr>LastHeartbeat := now, MissedBeats := 0\<rparr>"

definition IncrementMissedBeats :: "UserSession \<Rightarrow> UserSession" where
  "IncrementMissedBeats s = s\<lparr>MissedBeats := MissedBeats s + 1\<rparr>"

definition ShouldBeCleaned :: "UserSession \<Rightarrow> bool" where
  "ShouldBeCleaned s \<longleftrightarrow> 3 \<le>s MissedBeats s"

text \<open>
  \<open>time.Duration\<close> is a signed 64-bit count of nanoseconds, and \<open>Time.Sub\<close> saturates at
  its two ends.
\<close>

definition Second :: int where
  "Second = 1000000000"

definition maxDuration :: int where
  "maxDuration = 2 ^ 63 - 1"

definition minDuration :: int where
  "minDuration = - (2 ^ 63)"

definition Sub :: "time \<Rightarrow> time \<Rightarrow> int" where
  "Sub t u =
     (let d = t - u
      in if d > maxDuration then maxDuration
         else if d < minDuration then minDuration
         else d)"

section \<open>Wire messages (internal/model)\<close>

record ChatMessage =
  cm_MessageID :: string
  cm_Type :: string
  cm_Content :: string
  cm_Sender :: int64
  cm_SenderName :: string
  cm_SessionID :: string
  cm_Timestamp :: time

record ChatResponse =
  Success :: bool
  MessageID :: string
  Message :: string

text \<open>What is handed to \<open>SendMessageToUser\<close> as its \<open>interface{}\<close> argument.\<close>

datatype payload = PChatResponse ChatResponse | PChatMessage ChatMessage

section \<open>The session registry (SessionService)\<close>

text \<open>
  Go errors. \<open>ErrUserOffline\<close> is the package-level value; a failed \<open>WriteJSON\<close> returns
  whatever the transport reports, kept here as its text.
\<close>

datatype error = ErrUserOffline | WriteError string

text \<open>
  One constructor for each logging call of the gateway, with the zap fields it carries.
\<close>

datatype log_entry =
    InfoReconnectCloseOld int64 string
  | InfoSessionRegistered int64 string string
  | WarnUserOffline int64
  | ErrorSendFailed int64 error
  | InfoSendOK int64
  | DebugHeartbeatUpdated int64
  | InfoSessionRemoved int64 string
  | InfoSessionRemovedByID int64
  | InfoCleanSession int64 "64 word"
  | WarnHeartbeatLost int64 "64 word"
  | DebugHeartbeatReceived int64
  | WarnUnknownType int64 string

text \<open>Goroutines started with \<open>go\<close>: launched, and run later by the scheduler.\<close>

datatype goroutine =
    GoRemoveUserByID int64
  | GoHandleUserMessage int64 string

text \<open>
  The first three fields are those of the Go struct (the lock is left out: every
  operation below is one critical section, executed atomically). The map holds session
  pointers; each pointer is created by \<open>RegisterUser\<close> and stored in exactly one entry,
  so the session is kept in the entry itself and a mutation through the pointer is an
  update of the entry. The last three fields record what the service does to its
  environment: the handles on which \<open>Close\<close> has been called, the calls of \<open>WriteJSON\<close>
  in order, and the goroutines launched and not yet run.
\<close>

record SessionService =
  userSessions :: "int64 \<rightharpoonup> UserSession"
  sessionToUser :: "string \<rightharpoonup> int64"
  logger :: "log_entry list"
  closedConns :: "conn set"
  writes :: "(conn \<times> payload) list"
  spawned :: "goroutine list"

definition NewSessionService :: SessionService where
  "NewSessionService =
     \<lparr>userSessions = Map.empty, sessionToUser = Map.empty, logger = [],
      closedConns = {}, writes = [], spawned = []\<rparr>"

definition logf :: "log_entry \<Rightarrow> SessionService \<Rightarrow> SessionService" where
  "logf e s = s\<lparr>logger := logger s @ [e]\<rparr>"

definition RegisterUser ::
  "time \<Rightarrow> int64 \<Rightarrow> string \<Rightarrow> conn \<Rightarrow> string \<Rightarrow> string \<Rightarrow> SessionService \<Rightarrow> SessionService"
where
  "RegisterUser now userID username c sessionID clientIP s =
     (let s1 = (case userSessions s userID of
                  Some existingSession \<Rightarrow>
                    (logf (InfoReconnectCloseOld userID (SessionID existingSession)) s)
                      \<lparr>closedConns := insert (Conn existingSession) (closedConns s),
                       sessionToUser := (sessionToUser s)(SessionID existingSession := None)\<rparr>
                | None \<Rightarrow> s);
          session = \<lparr>UserID = userID, Username = username, Conn = c,
                     SessionID = sessionID, ClientIP = clientIP,
                     LastHeartbeat = now, MissedBeats = 0\<rparr>
      in logf (InfoSessionRegistered userID username sessionID)
           (s1\<lparr>userSessions := (userSessions s1)(userID \<mapsto> session),
               sessionToUser := (sessionToUser s1)(sessionID \<mapsto> userID)\<rparr>))"

text \<open>
  \<open>Conn.WriteJSON\<close> belongs to the websocket library: its outcome is a parameter,
  \<open>None\<close> for success and \<open>Some e\<close> for the error it returns.
\<close>

type_synonym transport = "conn \<Rightarrow> payload \<Rightarrow> error option"

definition WriteMessage ::
  "transport \<Rightarrow> UserSession \<Rightarrow> payload \<Rightarrow> SessionService \<Rightarrow> error option \<times> SessionService"
where
  "WriteMessage wr session message s =
     (wr (Conn session) message, s\<lparr>writes := writes s @ [(Conn session, message)]\<rparr>)"

definition SendMessageToUser ::
  "transport \<Rightarrow> int64 \<Rightarrow> payload \<Rightarrow> SessionService \<Rightarrow> error option \<times> SessionService"
where
  "SendMessageToUser wr userID message s =
     (case userSessions s userID of
        None \<Rightarrow> (Some ErrUserOffline, logf (WarnUserOffline userID) s)
      | Some session \<Rightarrow>
          (case WriteMessage wr session message s of
             (Some err, s1) \<Rightarrow>
               (Some err,
                (logf (ErrorSendFailed userID err) s1)
                  \<lparr>spawned := spawned s1 @ [GoRemoveUserByID userID]\<rparr>)
           | (None, s1) \<Rightarrow> (None, logf (InfoSendOK userID) s1)))"

definition UpdateHeartbeat :: "time \<Rightarrow> int64 \<Rightarrow> SessionService \<Rightarrow> bool \<times> SessionService" where
  "UpdateHeartbeat now userID s =
     (case userSessions s userID of
        None \<Rightarrow> (False, s)
      | Some session \<Rightarrow>
          (True,
           logf (DebugHeartbeatUpdated userID)
             (s\<lparr>userSessions :=
                  (userSessions s)(userID \<mapsto> UpdateHeartbeat_session now session)\<rparr>)))"

definition RemoveUserBySessionID :: "string \<Rightarrow> SessionService \<Rightarrow> SessionService" where
  "RemoveUserBySessionID sessionID s =
     (case sessionToUser s sessionID of
        Some userID \<Rightarrow>
          logf (InfoSessionRemoved userID sessionID)
            (s\<lparr>userSessions := (userSessions s)(userID := None),
               sessionToUser := (sessionToUser s)(sessionID := None)\<rparr>)
      | None \<Rightarrow> s)"

definition RemoveUserByID :: "int64 \<Rightarrow> SessionService \<Rightarrow> SessionService" where
  "RemoveUserByID userID s =
     (case userSessions s userID of
        Some session \<Rightarrow>
          logf (InfoSessionRemovedByID userID)
            (s\<lparr>sessionToUser := (sessionToUser s)(SessionID session := None),
               userSessions := (userSessions s)(userID := None)\<rparr>)
      | None \<Rightarrow> s)"

subsection \<open>The heartbeat monitor\<close>

text \<open>
  The body of the \<open>range\<close> loop of \<open>heartbeatChecker\<close> for one entry of the identity
  index. The counter is incremented through the session pointer before the test, so the
  log line and the test both see the incremented value.
\<close>

definition checkSession :: "time \<Rightarrow> int64 \<Rightarrow> SessionService \<Rightarrow> SessionService" where
  "checkSession now userID s =
     (case userSessions s userID of
        None \<Rightarrow> s
      | Some session0 \<Rightarrow>
          (let timeSinceHeartbeat = Sub now (LastHeartbeat session0)
           in if timeSinceHeartbeat > 60 * Second then
                (let session = IncrementMissedBeats session0
                 in if ShouldBeCleaned session then
                      (logf (InfoCleanSession userID (MissedBeats session)) s)
                        \<lparr>closedConns := insert (Conn session) (closedConns s),
                         userSessions := (userSessions s)(userID := None),
                         sessionToUser := (sessionToUser s)(SessionID session := None)\<rparr>
                    else
                      (logf (WarnHeartbeatLost userID (MissedBeats session)) s)
                        \<lparr>userSessions := (userSessions s)(userID \<mapsto> session)\<rparr>)
              else s))"

text \<open>
  One tick of the monitor: the clock is read once, then every entry is visited. Go
  leaves the order of a \<open>range\<close> over a map unspecified, so the order \<open>ks\<close> is a
  parameter; it lists the keys of the identity index, each once.
\<close>

definition heartbeatScan :: "time \<Rightarrow> int64 list \<Rightarrow> SessionService \<Rightarrow> SessionService" where
  "heartbeatScan now ks s = foldl (\<lambda>st userID. checkSession now userID st) s ks"

text \<open>The scheduler runs the oldest launched goroutine that tears a session down.\<close>

fun runGoroutine :: "goroutine \<Rightarrow> SessionService \<Rightarrow> SessionService" where
  "runGoroutine (GoRemoveUserByID userID) s = RemoveUserByID userID s"
| "runGoroutine (GoHandleUserMessage userID content) s = s"

subsection \<open>The operations of the registry and its invariant\<close>

text \<open>
  A launched goroutine runs at some later point, in any order; running the one at
  position \<open>i\<close> removes it from the list. The operations that can reach the registry
  are collected in one type, so that an invariant can be stated over all of them.
\<close>

definition runSpawned :: "nat \<Rightarrow> SessionService \<Rightarrow> SessionService" where
  "runSpawned i s =
     (if i < length (spawned s)
      then runGoroutine (spawned s ! i) (s\<lparr>spawned := take i (spawned s) @ drop (Suc i) (spawned s)\<rparr>)
      else s)"

datatype operation =
    Register time int64 string conn string string
  | RemoveBySessionId string
  | RemoveByIdentity int64
  | MonitorScan time "int64 list"
  | SendTo transport int64 payload
  | RunSpawned nat
  | Heartbeat time int64

fun apply_op :: "operation \<Rightarrow> SessionService \<Rightarrow> SessionService" where
  "apply_op (Register now userID username c sessionID clientIP) s =
     RegisterUser now userID username c sessionID clientIP s"
| "apply_op (RemoveBySessionId sessionID) s = RemoveUserBySessionID sessionID s"
| "apply_op (RemoveByIdentity userID) s = RemoveUserByID userID s"
| "apply_op (MonitorScan now ks) s = heartbeatScan now ks s"
| "apply_op (SendTo wr userID message) s = snd (SendMessageToUser wr userID message s)"
| "apply_op (RunSpawned i) s = runSpawned i s"
| "apply_op (Heartbeat now userID) s = snd (UpdateHeartbeat now userID s)"

text \<open>
  The invariant of the registry: no two entries of the identity index hold sessions of the
  same identity; every session-id key maps to an identity whose entry is a session
  bearing that session id; the session id of every registered session is a key of the
  session-id index.
\<close>

definition registry_inv :: "SessionService \<Rightarrow> bool" where
  "registry_inv s \<longleftrightarrow>
     (\<forall>u v x y. userSessions s u = Some x \<and> userSessions s v = Some y \<and> UserID x = UserID y
        \<longrightarrow> u = v) \<and>
     (\<forall>sid u. sessionToUser s sid = Some u \<longrightarrow>
        (\<exists>x. userSessions s u = Some x \<and> SessionID x = sid)) \<and>
     (\<forall>u x. userSessions s u = Some x \<longrightarrow> SessionID x \<in> dom (sessionToUser s))"

text \<open>
  A stronger form, which is the one each operation hands on to the next: every session is
  stored under its own identity, and its session id maps back to that identity.
\<close>

definition indices_consistent :: "SessionService \<Rightarrow> bool" where
  "indices_consistent s \<longleftrightarrow>
     (\<forall>u x. userSessions s u = Some x \<longrightarrow>
        UserID x = u \<and> sessionToUser s (SessionID x) = Some u) \<and>
     (\<forall>sid u. sessionToUser s sid = Some u \<longrightarrow>
        (\<exists>x. userSessions s u = Some x \<and> SessionID x = sid))"

text \<open>
  The connection handler draws a new UUID as the session id of every connection. What the
  registry needs of it: the session id of a registration is not a key held by another
  identity. The states of the registry are those reached from the empty one by operations
  that respect this.
\<close>

fun fresh_session_id :: "SessionService \<Rightarrow> operation \<Rightarrow> bool" where
  "fresh_session_id s (Register now userID username c sessionID clientIP) \<longleftrightarrow>
     sessionToUser s sessionID = None \<or> sessionToUser s sessionID = Some userID"
| "fresh_session_id s _ \<longleftrightarrow> True"

inductive reachable :: "SessionService \<Rightarrow> bool" where
  init: "reachable NewSessionService"
| step: "reachable s \<Longrightarrow> fresh_session_id s op \<Longrightarrow> reachable (apply_op op s)"

section \<open>The message router (WebSocketHandler.handleMessage)\<close>

text \<open>
  Go strings are byte sequences; the fixed acknowledgement text is given by its UTF-8
  bytes.
\<close>

definition ackText :: string where
  "ackText =
     [CHR 0xE6, CHR 0xB6, CHR 0x88, CHR 0xE6, CHR 0x81, CHR 0xAF, CHR 0xE5, CHR 0xB7,
      CHR 0xB2, CHR 0xE6, CHR 0x94, CHR 0xB6, CHR 0xE5, CHR 0x88, CHR 0xB0, CHR 0xEF,
      CHR 0xBC, CHR 0x8C, CHR 0xE6, CHR 0xAD, CHR 0xA3, CHR 0xE5, CHR 0x9C, CHR 0xA8,
      CHR 0xE5, CHR 0xA4, CHR 0x84, CHR 0xE7, CHR 0x90, CHR 0x86, CHR 0xE4, CHR 0xB8,
      CHR 0xAD, CHR ''.'', CHR ''.'', CHR ''.'']"


section \<open>The tool registry (internal/tools)\<close>

text \<open>
  Values of type \<open>interface{}\<close> that travel through the tools are JSON values. A Go
  \<open>error\<close> of this package is kept as the text its \<open>Error()\<close> returns, since that text
  is what the agent loop puts into the conversation.
\<close>

datatype json =
    JNull
  | JBool bool
  | JNum int
  | JStr string
  | JArr "json list"
  | JObj "(string \<times> json) list"

type_synonym params = "(string \<times> json) list"
type_synonym ToolHandler = "params \<Rightarrow> string + json"

record Tool =
  tool_Name :: string
  tool_Description :: string
  Handler :: "ToolHandler option"

record Function =
  Name :: string
  Arguments :: string

text \<open>
  \<open>client.ToolCall\<close> and \<open>tools.ToolCall\<close> have the same three fields, and the agent
  loop copies one into the other field by field: one record stands for both.
\<close>

record ToolCall =
  tc_ID :: string
  tc_Type :: string
  tc_Function :: Function

record Registry =
  tools :: "string \<rightharpoonup> Tool"

definition Get :: "Registry \<Rightarrow> string \<Rightarrow> string + Tool" where
  "Get r name =
     (case tools r name of
        None \<Rightarrow> Inl (''tool not found: '' @ name)
      | Some tool \<Rightarrow> Inr tool)"

text \<open>
  \<open>json.Unmarshal\<close> into a \<open>map[string]interface{}\<close> is the library's: a parameter,
  \<open>Inl\<close> with the error text when the arguments do not parse. \<open>ParseArguments\<close> wraps that
  error with a fixed prefix (given by its UTF-8 bytes).
\<close>

type_synonym unmarshal = "string \<Rightarrow> string + params"

definition parseFailedPrefix :: string where
  "parseFailedPrefix =
     [CHR 0xE8, CHR 0xA7, CHR 0xA3, CHR 0xE6, CHR 0x9E, CHR 0x90, CHR 0xE5, CHR 0x8F,
      CHR 0x82, CHR 0xE6, CHR 0x95, CHR 0xB0, CHR 0xE5, CHR 0xA4, CHR 0xB1, CHR 0xE8,
      CHR 0xB4, CHR 0xA5, CHR '':'', CHR '' '']"

definition ParseArguments :: "unmarshal \<Rightarrow> ToolCall \<Rightarrow> string + params" where
  "ParseArguments un tc =
     (case un (Arguments (tc_Function tc)) of
        Inl err \<Rightarrow> Inl (parseFailedPrefix @ err)
      | Inr ps \<Rightarrow> Inr ps)"

definition Execute_tool :: "Tool \<Rightarrow> params \<Rightarrow> string + json" where
  "Execute_tool t ps =
     (case Handler t of
        None \<Rightarrow> Inl (''tool handler not implemented: '' @ tool_Name t)
      | Some h \<Rightarrow> h ps)"

definition Execute :: "unmarshal \<Rightarrow> Registry \<Rightarrow> ToolCall \<Rightarrow> string + json" where
  "Execute un r toolCall =
     (case Get r (Name (tc_Function toolCall)) of
        Inl err \<Rightarrow> Inl err
      | Inr tool \<Rightarrow>
          (case ParseArguments un toolCall of
             Inl err \<Rightarrow> Inl err
           | Inr ps \<Rightarrow>
               (case Execute_tool tool ps of
                  Inl err \<Rightarrow> Inl err
                | Inr result \<Rightarrow> Inr result)))"

section \<open>The agent loop (cmd/assistant/main.go)\<close>

record Message =
  Role :: string
  Content :: string
  ToolCalls :: "ToolCall list"
  ToolCallID :: string

record Choice =
  FinishReason :: string
  Choice_Message :: Message

text \<open>The part of \<open>client.ChatResponse\<close> the loop reads: \<open>Output.Text\<close> and \<open>Output.Choices\<close>.\<close>

record LLMResponse =
  Output_Text :: string
  Output_Choices :: "Choice list"

record AssistantRequest =
  req_UserID :: int64
  req_Question :: string
  req_Category :: string

record AIResponseRequest =
  ai_UserID :: int64
  ai_Content :: string
  ai_Source :: string

text \<open>
  The reasoning collaborator is outside the program. \<open>ChatWithTools\<close> is a parameter: given
  how many calls were made before and the conversation buffer, it answers with an error
  text or a response (the tool descriptors are the same at every call and are not passed).
  \<open>json.Marshal\<close> is a parameter as well; its error is dropped by the loop.
\<close>

type_synonym llm = "nat \<Rightarrow> Message list \<Rightarrow> string + LLMResponse"
type_synonym marshal = "json \<Rightarrow> string"

definition maxIterations :: nat where
  "maxIterations = 5"

definition llmFailedText :: string where
  "llmFailedText =
     [CHR 0xE6, CHR 0x8A, CHR 0xB1, CHR 0xE6, CHR 0xAD, CHR 0x89, CHR 0xEF, CHR 0xBC,
      CHR 0x8C, CHR 0xE5, CHR 0xA4, CHR 0x84, CHR 0xE7, CHR 0x90, CHR 0x86, CHR 0xE6,
      CHR 0x82, CHR 0xA8, CHR 0xE7, CHR 0x9A, CHR 0x84, CHR 0xE8, CHR 0xAF, CHR 0xB7,
      CHR 0xE6, CHR 0xB1, CHR 0x82, CHR 0xE6, CHR 0x97, CHR 0xB6, CHR 0xE5, CHR 0x87,
      CHR 0xBA, CHR 0xE9, CHR 0x94, CHR 0x99, CHR 0xE4, CHR 0xBA, CHR 0x86, CHR 0xE3,
      CHR 0x80, CHR 0x82]"

definition noAnswerText :: string where
  "noAnswerText =
     [CHR 0xE6, CHR 0x8A, CHR 0xB1, CHR 0xE6, CHR 0xAD, CHR 0x89, CHR 0xEF, CHR 0xBC,
      CHR 0x8C, CHR 0xE6, CHR 0xB2, CHR 0xA1, CHR 0xE6, CHR 0x9C, CHR 0x89, CHR 0xE8,
      CHR 0x8E, CHR 0xB7, CHR 0xE5, CHR 0x8F, CHR 0x96, CHR 0xE5, CHR 0x88, CHR 0xB0,
      CHR 0xE5, CHR 0x9B, CHR 0x9E, CHR 0xE7, CHR 0xAD, CHR 0x94, CHR 0xE3, CHR 0x80,
      CHR 0x82]"

text \<open>The body of the inner loop: one requested tool call, and the entry it appends.\<close>

definition toolMessage :: "unmarshal \<Rightarrow> marshal \<Rightarrow> Registry \<Rightarrow> ToolCall \<Rightarrow> Message" where
  "toolMessage un ma r toolCall =
     (let result = (case Execute un r toolCall of
                      Inl err \<Rightarrow> JObj [(''error'', JStr err)]
                    | Inr res \<Rightarrow> res);
          resultJSON = ma result
      in \<lparr>Role = ''tool'', Content = resultJSON, ToolCalls = [],
          ToolCallID = tc_ID toolCall\<rparr>)"

definition runToolCalls ::
  "unmarshal \<Rightarrow> marshal \<Rightarrow> Registry \<Rightarrow> ToolCall list \<Rightarrow> Message list \<Rightarrow> Message list"
where
  "runToolCalls un ma r calls messages =
     foldl (\<lambda>ms toolCall. ms @ [toolMessage un ma r toolCall]) messages calls"

text \<open>
  What one run of the loop leaves: the final response, and, to state how the budget is
  spent, the number of calls made to the collaborator and the buffer at the end. The log
  lines of the loop and of the tool registry are left out.
\<close>

record outcome =
  finalResponse :: string
  llmCalls :: nat
  buffer :: "Message list"

text \<open>
  The \<open>for\<close> loop with its counter \<open>i\<close>. \<open>finalResponse\<close> is declared without a
  value before the loop: it is the empty string unless a branch assigns it. Each pass
  calls the collaborator once, so at the top of pass \<open>i\<close> exactly \<open>i\<close> calls have been
  made.
\<close>

function agentLoop ::
  "llm \<Rightarrow> unmarshal \<Rightarrow> marshal \<Rightarrow> Registry \<Rightarrow> nat \<Rightarrow> Message list \<Rightarrow> outcome"
where
  "agentLoop ChatWithTools un ma r i messages =
     (if i < maxIterations then
        (case ChatWithTools i messages of
           Inl err \<Rightarrow>
             \<lparr>finalResponse = llmFailedText, llmCalls = i + 1, buffer = messages\<rparr>
         | Inr resp \<Rightarrow>
             (case Output_Choices resp of
                c # cs \<Rightarrow>
                  (if length (ToolCalls (Choice_Message c)) > 0 then
                     (let assistantMsg = Choice_Message c;
                          messages1 = messages @ [assistantMsg];
                          messages2 = runToolCalls un ma r (ToolCalls assistantMsg) messages1
                      in agentLoop ChatWithTools un ma r (i + 1) messages2)
                   else
                     \<lparr>finalResponse =
                        (if Output_Text resp \<noteq> [] then Output_Text resp
                         else Content (Choice_Message c)),
                      llmCalls = i + 1, buffer = messages\<rparr>)
              | [] \<Rightarrow>
                  \<lparr>finalResponse =
                     (if Output_Text resp \<noteq> [] then Output_Text resp else noAnswerText),
                   llmCalls = i + 1, buffer = messages\<rparr>))
      else \<lparr>finalResponse = [], llmCalls = i, buffer = messages\<rparr>)"
  by pat_completeness auto
termination
  by (relation "measure (\<lambda>(ChatWithTools, un, ma, r, i, messages). maxIterations - i)") auto

declare agentLoop.simps [simp del]

text \<open>
  \<open>processRequest\<close>: the buffer starts with the system instruction (a fixed text, taken
  as a parameter) and the user's question; whatever the loop leaves in \<open>finalResponse\<close>
  is posted to the gateway's callback by \<open>sendToIM\<close>.
\<close>

definition sendToIM :: "int64 \<Rightarrow> string \<Rightarrow> AIResponseRequest" where
  "sendToIM userID content =
     \<lparr>ai_UserID = userID, ai_Content = content, ai_Source = ''assistant''\<rparr>"

definition processRequest ::
  "string \<Rightarrow> llm \<Rightarrow> unmarshal \<Rightarrow> marshal \<Rightarrow> Registry \<Rightarrow> AssistantRequest \<Rightarrow> AIResponseRequest"
where
  "processRequest systemPrompt ChatWithTools un ma r req =
     (let messages =
            [\<lparr>Role = ''system'', Content = systemPrompt, ToolCalls = [], ToolCallID = []\<rparr>,
             \<lparr>Role = ''user'', Content = req_Question req, ToolCalls = [], ToolCallID = []\<rparr>];
          out = agentLoop ChatWithTools un ma r 0 messages
      in sendToIM (req_UserID req) (finalResponse out))"

section \<open>The browser client (web/js/websocket.js)\<close>

text \<open>
  A frame is a parsed JSON object, given by its properties in the order of the text.
  Reading a property that the object does not have gives JavaScript's \<open>undefined\<close>,
  here \<open>None\<close>; where the text repeats a name, \<open>JSON.parse\<close> keeps the last value.
  Numbers are restricted to integers.
\<close>

type_synonym frame = "(string \<times> json) list"

definition getProp :: "frame \<Rightarrow> string \<Rightarrow> json option" where
  "getProp data name = map_of (rev data) name"

fun truthy :: "json option \<Rightarrow> bool" where
  "truthy None = False"
| "truthy (Some JNull) = False"
| "truthy (Some (JBool b)) = b"
| "truthy (Some (JNum n)) = (n \<noteq> 0)"
| "truthy (Some (JStr s)) = (s \<noteq> [])"
| "truthy (Some (JArr xs)) = True"
| "truthy (Some (JObj ps)) = True"

text \<open>
  What the gateway puts on the wire for a \<open>ChatResponse\<close>, by the JSON tags of the
  struct: \<open>success\<close>, \<open>messageId\<close> (left out when empty) and \<open>message\<close>.
\<close>

definition encodeChatResponse :: "ChatResponse \<Rightarrow> frame" where
  "encodeChatResponse r =
     [(''success'', JBool (Success r))] @
     (if MessageID r = [] then [] else [(''messageId'', JStr (MessageID r))]) @
     [(''message'', JStr (Message r))]"

text \<open>
  The object handed to \<open>resolve\<close> or \<open>reject\<close> by \<open>handleResponse\<close>, and the ways a
  promise is settled: \<open>resolve(payload)\<close>, \<open>reject(payload)\<close>, or \<open>reject\<close> with an
  \<open>Error\<close> carrying a text.
\<close>

record responsePayload =
  rp_success :: bool
  rp_message :: "json option"
  rp_messageId :: "json option"

datatype settlement =
    Resolve responsePayload
  | Reject responsePayload
  | RejectError string

definition timeoutText :: string where
  "timeoutText =
     [CHR 0xE8, CHR 0xAF, CHR 0xB7, CHR 0xE6, CHR 0xB1, CHR 0x82, CHR 0xE8, CHR 0xB6,
      CHR 0x85, CHR 0xE6, CHR 0x97, CHR 0xB6]"

text \<open>
  An entry of the pending table holds the two functions of one promise, named here by
  the promise's number, and the handle of its timeout. An armed timeout is the closure
  passed to \<open>setTimeout\<close>: the time it is due, and the message id and \<open>reject\<close> function
  it captured.
\<close>

record pendingResponse =
  promise :: nat
  timeout :: nat

record timer =
  fire_at :: nat
  t_messageId :: string
  t_promise :: nat

datatype console_entry =
    WarnNoPending "json option"
  | ErrorNotConnected

text \<open>
  The manager and the part of the browser it acts on: the pending table; the timeouts
  that are armed; every call made to a \<open>resolve\<close> or \<open>reject\<close>, in order; the warnings and
  errors written to the console (the progress lines of \<open>console.log\<close> are left out); the
  frames handed to the message callback and those sent on the socket; whether the socket
  is open and whether a message callback is set; the clock in milliseconds and the next
  unused timer handle and promise number.
\<close>

record WebSocketManager =
  pendingResponses :: "string \<rightharpoonup> pendingResponse"
  timers :: "nat \<rightharpoonup> timer"
  settlements :: "(nat \<times> settlement) list"
  console :: "console_entry list"
  delivered :: "frame list"
  sent :: "frame list"
  wsOpen :: bool
  hasMessageCallback :: bool
  clock :: nat
  nextTimer :: nat
  nextPromise :: nat

definition newManager :: WebSocketManager where
  "newManager =
     \<lparr>pendingResponses = Map.empty, timers = Map.empty, settlements = [], console = [],
      delivered = [], sent = [], wsOpen = False, hasMessageCallback = False,
      clock = 0, nextTimer = 0, nextPromise = 0\<rparr>"

text \<open>
  \<open>send\<close> catches whatever the socket throws and only writes to the console, so it never
  throws itself: it returns no exception. \<open>sendWithResponse\<close> still has its \<open>catch\<close>
  branch.
\<close>

definition send :: "frame \<Rightarrow> WebSocketManager \<Rightarrow> string option \<times> WebSocketManager" where
  "send message st =
     (if wsOpen st then (None, st\<lparr>sent := sent st @ [message]\<rparr>)
      else (None, st\<lparr>console := console st @ [ErrorNotConnected]\<rparr>))"

definition clearTimeout :: "nat \<Rightarrow> WebSocketManager \<Rightarrow> WebSocketManager" where
  "clearTimeout t st = st\<lparr>timers := (timers st)(t := None)\<rparr>"

definition sendWithResponse ::
  "frame \<Rightarrow> string \<Rightarrow> WebSocketManager \<Rightarrow> nat \<times> WebSocketManager"
where
  "sendWithResponse message messageId st =
     (let p = nextPromise st;
          t = nextTimer st;
          st1 = st\<lparr>nextPromise := p + 1, nextTimer := t + 1,
                   timers := (timers st)(t \<mapsto>
                     \<lparr>fire_at = clock st + 30000, t_messageId = messageId, t_promise = p\<rparr>)\<rparr>;
          st2 = st1\<lparr>pendingResponses :=
                      (pendingResponses st1)(messageId \<mapsto> \<lparr>promise = p, timeout = t\<rparr>)\<rparr>
      in case send message st2 of
           (None, st3) \<Rightarrow> (p, st3)
         | (Some error, st3) \<Rightarrow>
             (p,
              (clearTimeout t (st3\<lparr>pendingResponses := (pendingResponses st3)(messageId := None)\<rparr>))
                \<lparr>settlements := settlements st3 @ [(p, RejectError error)]\<rparr>))"

text \<open>
  The event loop runs the callback of an armed timeout once it is due: delete the entry
  under the captured message id, reject the captured promise. The handle is then spent.
\<close>

definition fireTimer :: "nat \<Rightarrow> WebSocketManager \<Rightarrow> WebSocketManager" where
  "fireTimer t st =
     (case timers st t of
        None \<Rightarrow> st
      | Some tm \<Rightarrow>
          if fire_at tm \<le> clock st then
            st\<lparr>timers := (timers st)(t := None),
               pendingResponses := (pendingResponses st)(t_messageId tm := None),
               settlements := settlements st @ [(t_promise tm, RejectError timeoutText)]\<rparr>
          else st)"

text \<open>
  The keys of the pending table are the strings \<open>sendWithResponse\<close> stored, so a lookup
  with anything but a string finds nothing.
\<close>

definition lookupPending :: "WebSocketManager \<Rightarrow> json option \<Rightarrow> pendingResponse option" where
  "lookupPending st key =
     (case key of Some (JStr k) \<Rightarrow> pendingResponses st k | _ \<Rightarrow> None)"

definition deletePending :: "json option \<Rightarrow> WebSocketManager \<Rightarrow> WebSocketManager" where
  "deletePending key st =
     (case key of
        Some (JStr k) \<Rightarrow> st\<lparr>pendingResponses := (pendingResponses st)(k := None)\<rparr>
      | _ \<Rightarrow> st)"

definition handleResponse :: "frame \<Rightarrow> WebSocketManager \<Rightarrow> WebSocketManager" where
  "handleResponse response st =
     (let messageID = getProp response ''messageID'';
          success = getProp response ''success'';
          message = getProp response ''message''
      in case lookupPending st messageID of
           Some pending \<Rightarrow>
             (let st1 = deletePending messageID (clearTimeout (timeout pending) st)
              in if truthy success then
                   st1\<lparr>settlements := settlements st1 @
                         [(promise pending,
                           Resolve \<lparr>rp_success = True, rp_message = message,
                                    rp_messageId = messageID\<rparr>)]\<rparr>
                 else
                   st1\<lparr>settlements := settlements st1 @
                         [(promise pending,
                           Reject \<lparr>rp_success = False, rp_message = message,
                                   rp_messageId = messageID\<rparr>)]\<rparr>)
         | None \<Rightarrow> st\<lparr>console := console st @ [WarnNoPending messageID]\<rparr>)"

definition handleMessage_ws :: "frame \<Rightarrow> WebSocketManager \<Rightarrow> WebSocketManager" where
  "handleMessage_ws data st =
     (if getProp data ''success'' \<noteq> None \<and> truthy (getProp data ''messageID'') then
        handleResponse data st
      else if hasMessageCallback st then st\<lparr>delivered := delivered st @ [data]\<rparr>
      else st)"

text \<open>What can happen to the manager, one event at a time.\<close>

datatype event =
    SendWithResponse frame string
  | Incoming frame
  | Response frame
  | TimerDue nat
  | Elapse nat
  | SocketOpen bool
  | SetMessageCallback bool

fun step :: "WebSocketManager \<Rightarrow> event \<Rightarrow> WebSocketManager" where
  "step st (SendWithResponse message messageId) = snd (sendWithResponse message messageId st)"
| "step st (Incoming data) = handleMessage_ws data st"
| "step st (Response response) = handleResponse response st"
| "step st (TimerDue t) = fireTimer t st"
| "step st (Elapse ms) = st\<lparr>clock := clock st + ms\<rparr>"
| "step st (SocketOpen b) = st\<lparr>wsOpen := b\<rparr>"
| "step st (SetMessageCallback b) = st\<lparr>hasMessageCallback := b\<rparr>"

definition run :: "event list \<Rightarrow> WebSocketManager \<Rightarrow> WebSocketManager" where
  "run evs st = foldl step st evs"

text \<open>
  What links the pending table, the armed timeouts and the settlements made so far: an
  entry's timeout is armed and captured the entry's own key and promise; the promise of
  an armed timeout has not been settled; no two armed timeouts share a promise; handles
  and promise numbers in use are below the next unused ones; no promise was settled
  twice.
\<close>

definition pending_inv :: "WebSocketManager \<Rightarrow> bool" where
  "pending_inv st \<longleftrightarrow>
     (\<forall>k e. pendingResponses st k = Some e \<longrightarrow>
        (\<exists>tm. timers st (timeout e) = Some tm \<and> t_promise tm = promise e \<and> t_messageId tm = k)) \<and>
     (\<forall>t tm. timers st t = Some tm \<longrightarrow>
        t_promise tm \<notin> fst ` set (settlements st) \<and> t < nextTimer st \<and>
        t_promise tm < nextPromise st) \<and>
     (\<forall>t t' tm tm'. timers st t = Some tm \<and> timers st t' = Some tm' \<and>
        t_promise tm = t_promise tm' \<longrightarrow> t = t') \<and>
     (\<forall>p \<in> fst ` set (settlements st). p < nextPromise st) \<and>
     distinct (map fst (settlements st))"

section \<open>Example inputs\<close>

subsection \<open>Registries\<close>

text \<open>
  Concrete states on which the theorems below are evaluated: identity 42 on handle 7 with
  session id \<open>sid-a\<close>, and identity 43 on handle 8 with session id \<open>sid-b\<close>, each
  with a given last heartbeat and missed-beat count.
\<close>

definition session42 :: "time \<Rightarrow> 64 word \<Rightarrow> UserSession" where
  "session42 hb mb =
     \<lparr>UserID = 42, Username = ''user42'', Conn = 7, SessionID = ''sid-a'',
      ClientIP = ''10.0.0.1'', LastHeartbeat = hb, MissedBeats = mb\<rparr>"

definition session43 :: "time \<Rightarrow> 64 word \<Rightarrow> UserSession" where
  "session43 hb mb =
     \<lparr>UserID = 43, Username = ''user43'', Conn = 8, SessionID = ''sid-b'',
      ClientIP = ''10.0.0.2'', LastHeartbeat = hb, MissedBeats = mb\<rparr>"

definition registry2 :: "UserSession \<Rightarrow> UserSession \<Rightarrow> SessionService" where
  "registry2 a b =
     \<lparr>userSessions = [42 \<mapsto> a, 43 \<mapsto> b],
      sessionToUser = [''sid-a'' \<mapsto> 42, ''sid-b'' \<mapsto> 43],
      logger = [], closedConns = {}, writes = [], spawned = []\<rparr>"

definition aiAnswer :: payload where
  "aiAnswer =
     PChatMessage
       \<lparr>cm_MessageID = ''m-1'', cm_Type = ''AI_RESPONSE'', cm_Content = ''hello'',
        cm_Sender = 0, cm_SenderName = ''AI'', cm_SessionID = [], cm_Timestamp = 0\<rparr>"

definition brokenPipe :: transport where
  "brokenPipe c m = Some (WriteError ''write: broken pipe'')"

definition healthy :: transport where
  "healthy c m = None"



subsection \<open>Collaborators for the agent loop\<close>

definition exUnmarshal :: unmarshal where
  "exUnmarshal s = (if s = ''{}'' then Inr [] else Inl ''unexpected end of JSON input'')"

definition exMarshal :: marshal where
  "exMarshal j =
     (case j of
        JStr s \<Rightarrow> s
      | JObj [(k, JStr v)] \<Rightarrow> k @ '': '' @ v
      | _ \<Rightarrow> ''null'')"

definition exRegistry :: Registry where
  "exRegistry =
     \<lparr>tools =
        [''get_order_detail'' \<mapsto>
           \<lparr>tool_Name = ''get_order_detail'', tool_Description = ''order status'',
            Handler = Some (\<lambda>ps. Inr (JStr ''shipped''))\<rparr>,
         ''get_logistics'' \<mapsto>
           \<lparr>tool_Name = ''get_logistics'', tool_Description = ''parcel location'',
            Handler = Some (\<lambda>ps. Inl ''logistics backend unavailable'')\<rparr>]\<rparr>"

definition exCall :: "string \<Rightarrow> string \<Rightarrow> string \<Rightarrow> ToolCall" where
  "exCall cid name args =
     \<lparr>tc_ID = cid, tc_Type = ''function'', tc_Function = \<lparr>Name = name, Arguments = args\<rparr>\<rparr>"

definition toolRequest :: "ToolCall list \<Rightarrow> LLMResponse" where
  "toolRequest calls =
     \<lparr>Output_Text = [],
      Output_Choices =
        [\<lparr>FinishReason = ''tool_calls'',
          Choice_Message =
            \<lparr>Role = ''assistant'', Content = [], ToolCalls = calls, ToolCallID = []\<rparr>\<rparr>]\<rparr>"

text \<open>A collaborator that asks for the order tool at every call.\<close>

definition alwaysTool :: llm where
  "alwaysTool n messages = Inr (toolRequest [exCall ''call_1'' ''get_order_detail'' ''{}''])"

text \<open>
  A collaborator that first asks for three calls, each of which fails (an unregistered
  tool, arguments that do not parse, a handler that returns an error), and then answers.
\<close>

definition failingCalls :: "ToolCall list" where
  "failingCalls =
     [exCall ''c1'' ''get_weather'' ''{}'',
      exCall ''c2'' ''get_order_detail'' ''{'',
      exCall ''c3'' ''get_logistics'' ''{}'']"

definition thenAnswer :: llm where
  "thenAnswer n messages =
     (if n = 0 then Inr (toolRequest failingCalls)
      else Inr \<lparr>Output_Text = ''please try again later'', Output_Choices = []\<rparr>)"

definition exBuffer :: "Message list" where
  "exBuffer =
     [\<lparr>Role = ''system'', Content = ''you are a shop assistant'', ToolCalls = [], ToolCallID = []\<rparr>,
      \<lparr>Role = ''user'', Content = ''where is my order'', ToolCalls = [], ToolCallID = []\<rparr>]"

subsection \<open>Frames for the browser client\<close>

definition chatRequest :: frame where
  "chatRequest =
     [(''messageId'', JStr ''m1''), (''type'', JStr ''CHAT''), (''content'', JStr ''hello''),
      (''sender'', JNum 42), (''timestamp'', JStr ''2024-01-01T00:00:00.000Z'')]"

definition ackFrame :: frame where
  "ackFrame = encodeChatResponse \<lparr>Success = True, MessageID = ''m1'', Message = ackText\<rparr>"

definition lateReply :: frame where
  "lateReply = [(''success'', JBool True), (''messageID'', JStr ''x''), (''message'', JStr ''ok'')]"

section \<open>Unfolding the example states\<close>

lemmas ex_defs = registry2_def session42_def session43_def
lemmas dur_defs = Sub_def Second_def maxDuration_def minDuration_def Let_def

lemma UpdateHeartbeat_Some:
  "userSessions s userID = Some x \<Longrightarrow>
     UpdateHeartbeat now userID s =
       (True,
        s\<lparr>userSessions :=
             (userSessions s)(userID \<mapsto> x\<lparr>LastHeartbeat := now, MissedBeats := 0\<rparr>),
           logger := logger s @ [DebugHeartbeatUpdated userID]\<rparr>)"
  by (simp add: UpdateHeartbeat_def UpdateHeartbeat_session_def logf_def)

section \<open>Consistency of the two indices\<close>

lemma consistent_imp_inv:
  assumes ic: "indices_consistent s"
  shows "registry_inv s"
  unfolding registry_inv_def
proof (intro conjI allI impI)
  fix u v x y
  assume a: "userSessions s u = Some x \<and> userSessions s v = Some y \<and> UserID x = UserID y"
  from a ic have "UserID x = u" "UserID y = v" by (auto simp: indices_consistent_def)
  with a show "u = v" by simp
next
  fix sid u
  assume "sessionToUser s sid = Some u"
  with ic show "\<exists>x. userSessions s u = Some x \<and> SessionID x = sid"
    by (simp add: indices_consistent_def)
next
  fix u x
  assume "userSessions s u = Some x"
  with ic have "sessionToUser s (SessionID x) = Some u" by (simp add: indices_consistent_def)
  then show "SessionID x \<in> dom (sessionToUser s)" by (rule domI)
qed

lemma consistent_init: "indices_consistent NewSessionService"
  by (simp add: indices_consistent_def NewSessionService_def)

lemma ic_user:
  "indices_consistent s \<Longrightarrow> userSessions s u = Some x \<Longrightarrow>
     UserID x = u \<and> sessionToUser s (SessionID x) = Some u"
  by (simp add: indices_consistent_def)

lemma ic_sid:
  "indices_consistent s \<Longrightarrow> sessionToUser s sid = Some u \<Longrightarrow>
     \<exists>x. userSessions s u = Some x \<and> SessionID x = sid"
  by (simp add: indices_consistent_def)

lemma ic_sid_inj:
  "indices_consistent s \<Longrightarrow> sessionToUser s sid = Some u \<Longrightarrow>
     sessionToUser s sid' = Some u \<Longrightarrow> sid = sid'"
  by (metis ic_sid option.inject)

lemma ic_user_inj:
  "indices_consistent s \<Longrightarrow> userSessions s u = Some x \<Longrightarrow> userSessions s v = Some y \<Longrightarrow>
     SessionID x = SessionID y \<Longrightarrow> u = v"
  by (metis ic_user option.inject)

lemma consistent_drop_pair:
  assumes ic: "indices_consistent s" and x: "userSessions s u = Some x"
  shows "indices_consistent
           (s\<lparr>userSessions := (userSessions s)(u := None),
              sessionToUser := (sessionToUser s)(SessionID x := None)\<rparr>)"
  unfolding indices_consistent_def
proof (rule conjI; intro allI impI)
  fix v y
  assume "userSessions (s\<lparr>userSessions := (userSessions s)(u := None),
              sessionToUser := (sessionToUser s)(SessionID x := None)\<rparr>) v = Some y"
  then have v: "v \<noteq> u" and y: "userSessions s v = Some y"
    by (auto split: if_splits)
  from ic_user [OF ic y] have a: "UserID y = v" and b: "sessionToUser s (SessionID y) = Some v"
    by simp_all
  from ic_user_inj [OF ic x y] v have "SessionID y \<noteq> SessionID x" by auto
  with a b show "UserID y = v \<and>
     sessionToUser (s\<lparr>userSessions := (userSessions s)(u := None),
              sessionToUser := (sessionToUser s)(SessionID x := None)\<rparr>) (SessionID y) = Some v"
    by simp
next
  fix sid v
  assume "sessionToUser (s\<lparr>userSessions := (userSessions s)(u := None),
              sessionToUser := (sessionToUser s)(SessionID x := None)\<rparr>) sid = Some v"
  then have sid: "sid \<noteq> SessionID x" and v: "sessionToUser s sid = Some v"
    by (auto split: if_splits)
  from ic_sid [OF ic v] obtain y where y: "userSessions s v = Some y" "SessionID y = sid"
    by blast
  from y x sid have "v \<noteq> u" by auto
  with y show "\<exists>y. userSessions (s\<lparr>userSessions := (userSessions s)(u := None),
              sessionToUser := (sessionToUser s)(SessionID x := None)\<rparr>) v = Some y \<and>
              SessionID y = sid"
    by simp
qed

lemma consistent_ghost:
  "indices_consistent (s\<lparr>logger := l\<rparr>) = indices_consistent s"
  "indices_consistent (s\<lparr>closedConns := cs\<rparr>) = indices_consistent s"
  "indices_consistent (s\<lparr>writes := ws\<rparr>) = indices_consistent s"
  "indices_consistent (s\<lparr>spawned := gs\<rparr>) = indices_consistent s"
  by (simp_all add: indices_consistent_def)

lemma consistent_add_pair:
  assumes ic: "indices_consistent s" and u: "userSessions s u = None"
    and sid: "sessionToUser s (SessionID x) = None" and x: "UserID x = u"
  shows "indices_consistent
           (s\<lparr>userSessions := (userSessions s)(u \<mapsto> x),
              sessionToUser := (sessionToUser s)(SessionID x \<mapsto> u)\<rparr>)"
  unfolding indices_consistent_def
proof (rule conjI; intro allI impI)
  fix v y
  assume a: "userSessions (s\<lparr>userSessions := (userSessions s)(u \<mapsto> x),
              sessionToUser := (sessionToUser s)(SessionID x \<mapsto> u)\<rparr>) v = Some y"
  show "UserID y = v \<and>
     sessionToUser (s\<lparr>userSessions := (userSessions s)(u \<mapsto> x),
              sessionToUser := (sessionToUser s)(SessionID x \<mapsto> u)\<rparr>) (SessionID y) = Some v"
  proof (cases "v = u")
    case True
    with a x show ?thesis by simp
  next
    case False
    with a have y: "userSessions s v = Some y" by simp
    from ic_user [OF ic y] sid have "SessionID y \<noteq> SessionID x" by auto
    with ic_user [OF ic y] show ?thesis by simp
  qed
next
  fix k v
  assume a: "sessionToUser (s\<lparr>userSessions := (userSessions s)(u \<mapsto> x),
              sessionToUser := (sessionToUser s)(SessionID x \<mapsto> u)\<rparr>) k = Some v"
  show "\<exists>y. userSessions (s\<lparr>userSessions := (userSessions s)(u \<mapsto> x),
              sessionToUser := (sessionToUser s)(SessionID x \<mapsto> u)\<rparr>) v = Some y \<and>
              SessionID y = k"
  proof (cases "k = SessionID x")
    case True
    with a show ?thesis by simp
  next
    case False
    with a have k: "sessionToUser s k = Some v" by simp
    from ic_sid [OF ic k] obtain y where y: "userSessions s v = Some y" "SessionID y = k"
      by blast
    with u have "v \<noteq> u" by auto
    with y show ?thesis by simp
  qed
qed

lemma consistent_RegisterUser:
  assumes ic: "indices_consistent s"
    and fresh: "sessionToUser s sessionID = None \<or> sessionToUser s sessionID = Some userID"
  shows "indices_consistent (RegisterUser now userID username c sessionID clientIP s)"
proof -
  let ?new = "\<lparr>UserID = userID, Username = username, Conn = c,
               SessionID = sessionID, ClientIP = clientIP,
               LastHeartbeat = now, MissedBeats = 0\<rparr>"
  show ?thesis
  proof (cases "userSessions s userID")
    case None
    have "sessionToUser s sessionID = None"
    proof (rule ccontr)
      assume "sessionToUser s sessionID \<noteq> None"
      with fresh have "sessionToUser s sessionID = Some userID" by simp
      from ic_sid [OF ic this] None show False by simp
    qed
    with consistent_add_pair [OF ic None, of ?new] None show ?thesis
      by (simp add: RegisterUser_def logf_def consistent_ghost)
  next
    case (Some old)
    let ?s1 = "s\<lparr>userSessions := (userSessions s)(userID := None),
                 sessionToUser := (sessionToUser s)(SessionID old := None)\<rparr>"
    have ic1: "indices_consistent ?s1" by (rule consistent_drop_pair [OF ic Some])
    have sid1: "sessionToUser ?s1 sessionID = None"
    proof (cases "sessionToUser s sessionID")
      case None then show ?thesis by simp
    next
      case (Some w)
      with fresh have w: "sessionToUser s sessionID = Some userID" by simp
      from ic_user [OF ic \<open>userSessions s userID = Some old\<close>]
      have "sessionToUser s (SessionID old) = Some userID" by simp
      from ic_sid_inj [OF ic w this] show ?thesis by simp
    qed
    have "indices_consistent
            (?s1\<lparr>userSessions := (userSessions ?s1)(userID \<mapsto> ?new),
                 sessionToUser := (sessionToUser ?s1)(SessionID ?new \<mapsto> userID)\<rparr>)"
      by (rule consistent_add_pair [OF ic1]) (use sid1 in simp_all)
    then show ?thesis using Some
      by (simp add: RegisterUser_def logf_def indices_consistent_def)
  qed
qed

lemma consistent_RemoveUserBySessionID:
  assumes ic: "indices_consistent s"
  shows "indices_consistent (RemoveUserBySessionID sessionID s)"
proof (cases "sessionToUser s sessionID")
  case None
  with ic show ?thesis by (simp add: RemoveUserBySessionID_def)
next
  case (Some u)
  from ic_sid [OF ic Some] obtain x where x: "userSessions s u = Some x" "SessionID x = sessionID"
    by blast
  from consistent_drop_pair [OF ic x(1)] x(2) Some show ?thesis
    by (simp add: RemoveUserBySessionID_def logf_def consistent_ghost)
qed

lemma consistent_RemoveUserByID:
  assumes ic: "indices_consistent s"
  shows "indices_consistent (RemoveUserByID userID s)"
proof (cases "userSessions s userID")
  case None
  with ic show ?thesis by (simp add: RemoveUserByID_def)
next
  case (Some x)
  from consistent_drop_pair [OF ic Some] Some show ?thesis
    by (simp add: RemoveUserByID_def logf_def indices_consistent_def)
qed

lemma consistent_update_session:
  assumes ic: "indices_consistent s" and x: "userSessions s u = Some x"
    and y: "UserID y = UserID x" "SessionID y = SessionID x"
  shows "indices_consistent (s\<lparr>userSessions := (userSessions s)(u \<mapsto> y)\<rparr>)"
  unfolding indices_consistent_def
proof (rule conjI; intro allI impI)
  fix v z
  assume "userSessions (s\<lparr>userSessions := (userSessions s)(u \<mapsto> y)\<rparr>) v = Some z"
  then have "(v = u \<and> z = y) \<or> (v \<noteq> u \<and> userSessions s v = Some z)"
    by (auto split: if_splits)
  with ic_user [OF ic x] ic_user [OF ic, of v z] y
  show "UserID z = v \<and>
    sessionToUser (s\<lparr>userSessions := (userSessions s)(u \<mapsto> y)\<rparr>) (SessionID z) = Some v"
    by auto
next
  fix k v
  assume "sessionToUser (s\<lparr>userSessions := (userSessions s)(u \<mapsto> y)\<rparr>) k = Some v"
  then have k: "sessionToUser s k = Some v" by simp
  from ic_sid [OF ic k] obtain z where z: "userSessions s v = Some z" "SessionID z = k"
    by blast
  with x y show "\<exists>z. userSessions (s\<lparr>userSessions := (userSessions s)(u \<mapsto> y)\<rparr>) v = Some z \<and>
     SessionID z = k"
    by (cases "v = u") auto
qed

lemma consistent_cong:
  "userSessions t = userSessions s \<Longrightarrow> sessionToUser t = sessionToUser s \<Longrightarrow>
     indices_consistent t = indices_consistent s"
  by (simp add: indices_consistent_def)

lemma IncrementMissedBeats_sel [simp]:
  "UserID (IncrementMissedBeats x) = UserID x"
  "SessionID (IncrementMissedBeats x) = SessionID x"
  "Conn (IncrementMissedBeats x) = Conn x"
  "LastHeartbeat (IncrementMissedBeats x) = LastHeartbeat x"
  "MissedBeats (IncrementMissedBeats x) = MissedBeats x + 1"
  by (simp_all add: IncrementMissedBeats_def)

lemma checkSession_cases:
  assumes "userSessions s userID = Some x"
  shows "checkSession now userID s =
     (if Sub now (LastHeartbeat x) > 60 * Second then
        if ShouldBeCleaned (IncrementMissedBeats x) then
          s\<lparr>logger := logger s @ [InfoCleanSession userID (MissedBeats x + 1)],
            closedConns := insert (Conn x) (closedConns s),
            userSessions := (userSessions s)(userID := None),
            sessionToUser := (sessionToUser s)(SessionID x := None)\<rparr>
        else
          s\<lparr>logger := logger s @ [WarnHeartbeatLost userID (MissedBeats x + 1)],
            userSessions := (userSessions s)(userID \<mapsto> IncrementMissedBeats x)\<rparr>
      else s)"
  using assms by (simp add: checkSession_def Let_def logf_def)

lemma consistent_checkSession:
  assumes ic: "indices_consistent s"
  shows "indices_consistent (checkSession now userID s)"
proof (cases "userSessions s userID")
  case None
  with ic show ?thesis by (simp add: checkSession_def)
next
  case (Some x)
  let ?evict = "s\<lparr>userSessions := (userSessions s)(userID := None),
                   sessionToUser := (sessionToUser s)(SessionID x := None)\<rparr>"
  let ?bump = "s\<lparr>userSessions := (userSessions s)(userID \<mapsto> IncrementMissedBeats x)\<rparr>"
  have a: "indices_consistent ?evict"
    by (rule consistent_drop_pair [OF ic Some])
  have b: "indices_consistent ?bump"
    by (rule consistent_update_session [OF ic Some]) simp_all
  consider (fresh) "\<not> Sub now (LastHeartbeat x) > 60 * Second"
    | (evict) "Sub now (LastHeartbeat x) > 60 * Second" "ShouldBeCleaned (IncrementMissedBeats x)"
    | (bump) "Sub now (LastHeartbeat x) > 60 * Second" "\<not> ShouldBeCleaned (IncrementMissedBeats x)"
    by blast
  then show ?thesis
  proof cases
    case fresh
    with ic show ?thesis by (simp add: checkSession_cases [OF Some])
  next
    case evict
    have "indices_consistent (checkSession now userID s) = indices_consistent ?evict"
      by (rule consistent_cong) (simp_all add: checkSession_cases [OF Some] evict)
    with a show ?thesis by simp
  next
    case bump
    have "indices_consistent (checkSession now userID s) = indices_consistent ?bump"
      by (rule consistent_cong) (simp_all add: checkSession_cases [OF Some] bump)
    with b show ?thesis by simp
  qed
qed

lemma consistent_heartbeatScan:
  "indices_consistent s \<Longrightarrow> indices_consistent (heartbeatScan now ks s)"
  unfolding heartbeatScan_def
  by (induction ks arbitrary: s) (simp_all add: consistent_checkSession)

lemma consistent_SendMessageToUser:
  "indices_consistent s \<Longrightarrow> indices_consistent (snd (SendMessageToUser wr userID message s))"
  by (simp add: indices_consistent_def SendMessageToUser_def WriteMessage_def logf_def
        split: option.splits)

lemma consistent_runSpawned:
  "indices_consistent s \<Longrightarrow> indices_consistent (runSpawned i s)"
proof -
  assume a: "indices_consistent s"
  have b: "indices_consistent (s\<lparr>spawned := gs\<rparr>)" for gs
    using a by (simp add: indices_consistent_def)
  have c: "indices_consistent t \<Longrightarrow> indices_consistent (runGoroutine g t)" for g t
    by (cases g) (simp_all add: consistent_RemoveUserByID)
  show ?thesis using a b c by (simp add: runSpawned_def)
qed

lemma consistent_UpdateHeartbeat:
  assumes ic: "indices_consistent s"
  shows "indices_consistent (snd (UpdateHeartbeat now userID s))"
proof (cases "userSessions s userID")
  case None
  with ic show ?thesis by (simp add: UpdateHeartbeat_def)
next
  case (Some x)
  have "indices_consistent
          (s\<lparr>userSessions := (userSessions s)(userID \<mapsto> UpdateHeartbeat_session now x)\<rparr>)"
    by (rule consistent_update_session [OF ic Some]) (simp_all add: UpdateHeartbeat_session_def)
  with Some show ?thesis
    by (simp add: UpdateHeartbeat_def logf_def consistent_ghost)
qed

lemma consistent_apply_op:
  "indices_consistent s \<Longrightarrow> fresh_session_id s op \<Longrightarrow> indices_consistent (apply_op op s)"
  by (cases op)
     (simp_all add: consistent_RegisterUser consistent_RemoveUserBySessionID
        consistent_RemoveUserByID consistent_heartbeatScan consistent_SendMessageToUser
        consistent_runSpawned consistent_UpdateHeartbeat)

lemma reachable_consistent: "reachable s \<Longrightarrow> indices_consistent s"
  by (induction rule: reachable.induct) (simp_all add: consistent_init consistent_apply_op)

section \<open>Claim C3: the registry invariant\<close>

text \<open>
  Claim C3. A session id is unique per connection attempt: the connection handler draws
  a new UUID for each connection before it registers. In every state reached from the
  empty registry by the operations (registration, removal by session id, removal by
  identity, the monitor's scan, a send and the teardown it may launch, a heartbeat), each
  registration bringing a session id that no other identity holds, the invariant holds,
  and it holds again after any further such operation: each identity has at most one
  registered session, every session-id key maps to an identity whose entry bears that
  session id, and every registered session's id is a key of the session-id index.
  In particular, registering over an existing session closes the prior handle, removes
  the prior session-id key, replaces the identity's entry and inserts the new session-id
  key, and touches nothing else of the two indices.
\<close>

theorem registry_invariant:
  "(reachable s \<longrightarrow>
      registry_inv s \<and> (\<forall>op. fresh_session_id s op \<longrightarrow> registry_inv (apply_op op s))) \<and>
   (\<forall>old. userSessions s userID = Some old \<longrightarrow>
      userSessions (RegisterUser now userID username c sessionID clientIP s)
        = (userSessions s)(userID \<mapsto>
             \<lparr>UserID = userID, Username = username, Conn = c, SessionID = sessionID,
              ClientIP = clientIP, LastHeartbeat = now, MissedBeats = 0\<rparr>) \<and>
      sessionToUser (RegisterUser now userID username c sessionID clientIP s)
        = ((sessionToUser s)(SessionID old := None))(sessionID \<mapsto> userID) \<and>
      closedConns (RegisterUser now userID username c sessionID clientIP s)
        = insert (Conn old) (closedConns s))"
proof (intro conjI impI allI)
  assume r: "reachable s"
  then show "registry_inv s"
    by (simp add: reachable_consistent consistent_imp_inv)
  fix op
  assume "fresh_session_id s op"
  with r have "reachable (apply_op op s)" by (rule reachable.step)
  then show "registry_inv (apply_op op s)"
    by (simp add: reachable_consistent consistent_imp_inv)
qed (simp_all add: RegisterUser_def logf_def)

theorem registry_invariant_witness:
  "reachable (RegisterUser 100 42 ''user42'' 7 ''sid-a'' ''10.0.0.1'' NewSessionService) \<and>
   fresh_session_id (RegisterUser 100 42 ''user42'' 7 ''sid-a'' ''10.0.0.1'' NewSessionService)
     (Register 200 42 ''user42'' 8 ''sid-b'' ''10.0.0.1'') \<and>
   registry_inv
     (RegisterUser 200 42 ''user42'' 8 ''sid-b'' ''10.0.0.1''
        (RegisterUser 100 42 ''user42'' 7 ''sid-a'' ''10.0.0.1'' NewSessionService)) \<and>
   userSessions
     (RegisterUser 200 42 ''user42'' 8 ''sid-b'' ''10.0.0.1''
        (RegisterUser 100 42 ''user42'' 7 ''sid-a'' ''10.0.0.1'' NewSessionService)) 42
     = Some \<lparr>UserID = 42, Username = ''user42'', Conn = 8, SessionID = ''sid-b'',
             ClientIP = ''10.0.0.1'', LastHeartbeat = 200, MissedBeats = 0\<rparr> \<and>
   sessionToUser
     (RegisterUser 200 42 ''user42'' 8 ''sid-b'' ''10.0.0.1''
        (RegisterUser 100 42 ''user42'' 7 ''sid-a'' ''10.0.0.1'' NewSessionService)) ''sid-a''
     = None \<and>
   sessionToUser
     (RegisterUser 200 42 ''user42'' 8 ''sid-b'' ''10.0.0.1''
        (RegisterUser 100 42 ''user42'' 7 ''sid-a'' ''10.0.0.1'' NewSessionService)) ''sid-b''
     = Some 42 \<and>
   7 \<in> closedConns
     (RegisterUser 200 42 ''user42'' 8 ''sid-b'' ''10.0.0.1''
        (RegisterUser 100 42 ''user42'' 7 ''sid-a'' ''10.0.0.1'' NewSessionService))"
proof -
  let ?s = "RegisterUser 100 42 ''user42'' 7 ''sid-a'' ''10.0.0.1'' NewSessionService"
  let ?old = "\<lparr>UserID = 42, Username = ''user42'', Conn = 7, SessionID = ''sid-a'',
              ClientIP = ''10.0.0.1'', LastHeartbeat = 100, MissedBeats = 0\<rparr>"
  have "fresh_session_id NewSessionService (Register 100 42 ''user42'' 7 ''sid-a'' ''10.0.0.1'')"
    by (simp add: NewSessionService_def)
  from reachable.step [OF reachable.init this]
  have r: "reachable ?s" by simp
  have f: "fresh_session_id ?s (Register 200 42 ''user42'' 8 ''sid-b'' ''10.0.0.1'')"
    by (simp add: RegisterUser_def NewSessionService_def logf_def)
  have old: "userSessions ?s 42 = Some ?old"
    by (simp add: RegisterUser_def NewSessionService_def logf_def)
  have sa: "sessionToUser ?s = [''sid-a'' \<mapsto> 42]"
    by (simp add: RegisterUser_def NewSessionService_def logf_def)
  have cl: "closedConns ?s = {}"
    by (simp add: RegisterUser_def NewSessionService_def logf_def)
  note t = registry_invariant [of ?s 42 200 "''user42''" 8 "''sid-b''" "''10.0.0.1''"]
  from t r f have inv: "registry_inv (apply_op (Register 200 42 ''user42'' 8 ''sid-b'' ''10.0.0.1'') ?s)"
    by blast
  from t old have
    "userSessions (RegisterUser 200 42 ''user42'' 8 ''sid-b'' ''10.0.0.1'' ?s)
        = (userSessions ?s)(42 \<mapsto>
             \<lparr>UserID = 42, Username = ''user42'', Conn = 8, SessionID = ''sid-b'',
              ClientIP = ''10.0.0.1'', LastHeartbeat = 200, MissedBeats = 0\<rparr>)"
    "sessionToUser (RegisterUser 200 42 ''user42'' 8 ''sid-b'' ''10.0.0.1'' ?s)
        = ((sessionToUser ?s)(SessionID ?old := None))(''sid-b'' \<mapsto> 42)"
    "closedConns (RegisterUser 200 42 ''user42'' 8 ''sid-b'' ''10.0.0.1'' ?s)
        = insert (Conn ?old) (closedConns ?s)"
    by blast+
  with r f inv sa cl show ?thesis by simp
qed

section \<open>Claim C5: what one scan of the monitor does to a session\<close>

lemma heartbeatScan_Nil: "heartbeatScan now [] s = s"
  by (simp add: heartbeatScan_def)

lemma heartbeatScan_Cons:
  "heartbeatScan now (k # ks) s = heartbeatScan now ks (checkSession now k s)"
  by (simp add: heartbeatScan_def)

lemma heartbeatScan_append:
  "heartbeatScan now (ks @ ks') s = heartbeatScan now ks' (heartbeatScan now ks s)"
  by (simp add: heartbeatScan_def)

text \<open>Visiting one identity leaves the entries of the others alone.\<close>

lemma checkSession_other:
  assumes "u \<noteq> v"
  shows "userSessions (checkSession now v s) u = userSessions s u"
proof (cases "userSessions s v")
  case None
  then show ?thesis by (simp add: checkSession_def)
next
  case (Some x)
  from assms show ?thesis by (simp add: checkSession_cases [OF Some])
qed

lemma heartbeatScan_other:
  "u \<notin> set ks \<Longrightarrow> userSessions (heartbeatScan now ks s) u = userSessions s u"
  by (induction ks arbitrary: s)
     (simp_all add: heartbeatScan_Nil heartbeatScan_Cons checkSession_other)

text \<open>A session found after a visit was there before, with the same id and handle.\<close>

lemma checkSession_origin:
  assumes "userSessions (checkSession now k s) v = Some y"
  shows "\<exists>y0. userSessions s v = Some y0 \<and> SessionID y0 = SessionID y \<and> Conn y0 = Conn y"
proof (cases "v = k")
  case False
  with assms show ?thesis by (simp add: checkSession_other)
next
  case True
  show ?thesis
  proof (cases "userSessions s k")
    case None
    with assms True show ?thesis by (simp add: checkSession_def)
  next
    case (Some x)
    with assms True show ?thesis
      by (auto simp: checkSession_cases [OF Some] split: if_splits)
  qed
qed

lemma heartbeatScan_origin:
  "userSessions (heartbeatScan now ks s) v = Some y \<Longrightarrow>
     \<exists>y0. userSessions s v = Some y0 \<and> SessionID y0 = SessionID y \<and> Conn y0 = Conn y"
proof (induction ks arbitrary: s y)
  case Nil
  then show ?case by (simp add: heartbeatScan_Nil)
next
  case (Cons k ks)
  from Cons.prems have "userSessions (heartbeatScan now ks (checkSession now k s)) v = Some y"
    by (simp add: heartbeatScan_Cons)
  from Cons.IH [OF this] obtain y1 where
    y1: "userSessions (checkSession now k s) v = Some y1" "SessionID y1 = SessionID y"
      "Conn y1 = Conn y"
    by blast
  from checkSession_origin [OF y1(1)] y1(2,3) show ?case by auto
qed

text \<open>
  A visit touches one session-id key and one handle only: those of the session it
  visits.
\<close>

lemma checkSession_sid:
  assumes "\<And>y. userSessions s v = Some y \<Longrightarrow> SessionID y \<noteq> sid"
  shows "sessionToUser (checkSession now v s) sid = sessionToUser s sid"
proof (cases "userSessions s v")
  case None
  then show ?thesis by (simp add: checkSession_def)
next
  case (Some x)
  with assms have "SessionID x \<noteq> sid" by simp
  then show ?thesis by (simp add: checkSession_cases [OF Some])
qed

lemma checkSession_conn:
  assumes "\<And>y. userSessions s v = Some y \<Longrightarrow> Conn y \<noteq> c"
  shows "c \<in> closedConns (checkSession now v s) \<longleftrightarrow> c \<in> closedConns s"
proof (cases "userSessions s v")
  case None
  then show ?thesis by (simp add: checkSession_def)
next
  case (Some x)
  with assms have "Conn x \<noteq> c" by simp
  then show ?thesis by (auto simp: checkSession_cases [OF Some])
qed

lemma heartbeatScan_sid:
  "(\<And>v y. v \<in> set ks \<Longrightarrow> userSessions s v = Some y \<Longrightarrow> SessionID y \<noteq> sid) \<Longrightarrow>
     sessionToUser (heartbeatScan now ks s) sid = sessionToUser s sid"
proof (induction ks arbitrary: s)
  case Nil
  show ?case by (simp add: heartbeatScan_Nil)
next
  case (Cons k ks)
  have a: "sessionToUser (checkSession now k s) sid = sessionToUser s sid"
    by (rule checkSession_sid) (use Cons.prems [of k] in simp)
  have "sessionToUser (heartbeatScan now ks (checkSession now k s)) sid
          = sessionToUser (checkSession now k s) sid"
  proof (rule Cons.IH)
    fix v y
    assume v: "v \<in> set ks" and y: "userSessions (checkSession now k s) v = Some y"
    from checkSession_origin [OF y] obtain y0 where
      "userSessions s v = Some y0" "SessionID y0 = SessionID y" by blast
    with Cons.prems [of v y0] v show "SessionID y \<noteq> sid" by simp
  qed
  with a show ?case by (simp add: heartbeatScan_Cons)
qed

lemma heartbeatScan_conn:
  "(\<And>v y. v \<in> set ks \<Longrightarrow> userSessions s v = Some y \<Longrightarrow> Conn y \<noteq> c) \<Longrightarrow>
     c \<in> closedConns (heartbeatScan now ks s) \<longleftrightarrow> c \<in> closedConns s"
proof (induction ks arbitrary: s)
  case Nil
  show ?case by (simp add: heartbeatScan_Nil)
next
  case (Cons k ks)
  have a: "c \<in> closedConns (checkSession now k s) \<longleftrightarrow> c \<in> closedConns s"
    by (rule checkSession_conn) (use Cons.prems [of k] in simp)
  have "c \<in> closedConns (heartbeatScan now ks (checkSession now k s))
          \<longleftrightarrow> c \<in> closedConns (checkSession now k s)"
  proof (rule Cons.IH)
    fix v y
    assume v: "v \<in> set ks" and y: "userSessions (checkSession now k s) v = Some y"
    from checkSession_origin [OF y] obtain y0 where
      "userSessions s v = Some y0" "Conn y0 = Conn y" by blast
    with Cons.prems [of v y0] v show "Conn y \<noteq> c" by simp
  qed
  with a show ?case by (simp add: heartbeatScan_Cons)
qed

text \<open>The scan adds no session-id key and reopens no handle.\<close>

lemma checkSession_sid_None:
  assumes "sessionToUser s sid = None"
  shows "sessionToUser (checkSession now k s) sid = None"
proof (cases "userSessions s k")
  case None
  with assms show ?thesis by (simp add: checkSession_def)
next
  case (Some x)
  from assms show ?thesis by (simp add: checkSession_cases [OF Some])
qed

lemma heartbeatScan_sid_None:
  "sessionToUser s sid = None \<Longrightarrow> sessionToUser (heartbeatScan now ks s) sid = None"
  by (induction ks arbitrary: s)
     (simp_all add: heartbeatScan_Nil heartbeatScan_Cons checkSession_sid_None)

lemma checkSession_closed:
  assumes "c \<in> closedConns s"
  shows "c \<in> closedConns (checkSession now k s)"
proof (cases "userSessions s k")
  case None
  with assms show ?thesis by (simp add: checkSession_def)
next
  case (Some x)
  from assms show ?thesis by (simp add: checkSession_cases [OF Some])
qed

lemma heartbeatScan_closed:
  "c \<in> closedConns s \<Longrightarrow> c \<in> closedConns (heartbeatScan now ks s)"
  by (induction ks arbitrary: s)
     (simp_all add: heartbeatScan_Nil heartbeatScan_Cons checkSession_closed)

text \<open>
  The scan seen from one identity: the visits before its own, its own visit, the visits
  after. The state its own visit starts from is called \<open>s1\<close>.
\<close>

lemma heartbeatScan_split:
  assumes d: "distinct ks" and m: "userID \<in> set ks"
    and x: "userSessions s userID = Some x"
  obtains pre post where "ks = pre @ userID # post"
    and "userID \<notin> set pre" and "userID \<notin> set post"
    and "heartbeatScan now ks s
           = heartbeatScan now post (checkSession now userID (heartbeatScan now pre s))"
    and "userSessions (heartbeatScan now pre s) userID = Some x"
proof -
  from m obtain pre post where ks: "ks = pre @ userID # post"
    by (auto dest: split_list)
  with d have n: "userID \<notin> set pre" "userID \<notin> set post" by auto
  have "heartbeatScan now ks s
          = heartbeatScan now post (checkSession now userID (heartbeatScan now pre s))"
    by (simp add: ks heartbeatScan_append heartbeatScan_Cons)
  moreover have "userSessions (heartbeatScan now pre s) userID = Some x"
    using x n(1) by (simp add: heartbeatScan_other)
  ultimately show ?thesis using ks n that by blast
qed

lemma heartbeatScan_entry:
  assumes d: "distinct ks" and m: "userID \<in> set ks"
    and x: "userSessions s userID = Some x"
  shows "userSessions (heartbeatScan now ks s) userID
           = userSessions (checkSession now userID s) userID"
proof -
  obtain pre post where "ks = pre @ userID # post"
    and "userID \<notin> set pre" and n: "userID \<notin> set post"
    and scan: "heartbeatScan now ks s
                 = heartbeatScan now post (checkSession now userID (heartbeatScan now pre s))"
    and x1: "userSessions (heartbeatScan now pre s) userID = Some x"
    by (rule heartbeatScan_split [OF d m x, of now])
  have "userSessions (checkSession now userID (heartbeatScan now pre s)) userID
          = userSessions (checkSession now userID s) userID"
    using x x1 by (simp add: checkSession_cases [OF x1] checkSession_cases [OF x])
  with n show ?thesis by (simp add: scan heartbeatScan_other)
qed

lemma heartbeatScan_evicted:
  assumes d: "distinct ks" and m: "userID \<in> set ks"
    and x: "userSessions s userID = Some x"
    and late: "Sub now (LastHeartbeat x) > 60 * Second"
    and full: "ShouldBeCleaned (IncrementMissedBeats x)"
  shows "sessionToUser (heartbeatScan now ks s) (SessionID x) = None"
    and "Conn x \<in> closedConns (heartbeatScan now ks s)"
proof -
  obtain pre post where "ks = pre @ userID # post"
    and "userID \<notin> set pre" and "userID \<notin> set post"
    and scan: "heartbeatScan now ks s
                 = heartbeatScan now post (checkSession now userID (heartbeatScan now pre s))"
    and x1: "userSessions (heartbeatScan now pre s) userID = Some x"
    by (rule heartbeatScan_split [OF d m x, of now])
  let ?s2 = "checkSession now userID (heartbeatScan now pre s)"
  have "sessionToUser ?s2 (SessionID x) = None"
    using late full by (simp add: checkSession_cases [OF x1])
  then show "sessionToUser (heartbeatScan now ks s) (SessionID x) = None"
    by (simp add: scan heartbeatScan_sid_None)
  have "Conn x \<in> closedConns ?s2"
    using late full by (simp add: checkSession_cases [OF x1])
  then show "Conn x \<in> closedConns (heartbeatScan now ks s)"
    by (simp add: scan heartbeatScan_closed)
qed

lemma checkSession_kept:
  assumes x1: "userSessions s1 userID = Some x"
    and kept: "\<not> Sub now (LastHeartbeat x) > 60 * Second \<or>
               \<not> ShouldBeCleaned (IncrementMissedBeats x)"
  shows "sessionToUser (checkSession now userID s1) = sessionToUser s1"
    and "closedConns (checkSession now userID s1) = closedConns s1"
proof -
  have "sessionToUser (checkSession now userID s1) = sessionToUser s1 \<and>
        closedConns (checkSession now userID s1) = closedConns s1"
  proof (cases "Sub now (LastHeartbeat x) > 60 * Second")
    case False
    then show ?thesis by (simp add: checkSession_cases [OF x1])
  next
    case True
    with kept have "\<not> ShouldBeCleaned (IncrementMissedBeats x)" by simp
    with True show ?thesis by (simp add: checkSession_cases [OF x1])
  qed
  then show "sessionToUser (checkSession now userID s1) = sessionToUser s1"
    and "closedConns (checkSession now userID s1) = closedConns s1"
    by simp_all
qed

lemma scan_before:
  assumes "userSessions (checkSession now userID (heartbeatScan now pre s)) v = Some y"
  shows "\<exists>y0. userSessions s v = Some y0 \<and> SessionID y0 = SessionID y \<and> Conn y0 = Conn y"
proof -
  from checkSession_origin [OF assms] obtain y1 where
    y1: "userSessions (heartbeatScan now pre s) v = Some y1" "SessionID y1 = SessionID y"
      "Conn y1 = Conn y"
    by blast
  from heartbeatScan_origin [OF y1(1)] obtain y0 where
    y0: "userSessions s v = Some y0" "SessionID y0 = SessionID y1" "Conn y0 = Conn y1"
    by blast
  show ?thesis
    by (rule exI [of _ y0]) (simp add: y0 y1)
qed


lemma heartbeatScan_kept_sid:
  assumes d: "distinct ks" and m: "userID \<in> set ks"
    and x: "userSessions s userID = Some x"
    and kept: "\<not> Sub now (LastHeartbeat x) > 60 * Second \<or>
               \<not> ShouldBeCleaned (IncrementMissedBeats x)"
    and uniq: "\<And>v y. userSessions s v = Some y \<Longrightarrow> v \<noteq> userID \<Longrightarrow>
                 SessionID y \<noteq> SessionID x"
  shows "sessionToUser (heartbeatScan now ks s) (SessionID x) = sessionToUser s (SessionID x)"
proof -
  obtain pre post where "ks = pre @ userID # post"
    and n: "userID \<notin> set pre" "userID \<notin> set post"
    and scan: "heartbeatScan now ks s
                 = heartbeatScan now post (checkSession now userID (heartbeatScan now pre s))"
    and x1: "userSessions (heartbeatScan now pre s) userID = Some x"
    by (rule heartbeatScan_split [OF d m x, of now])
  have a: "sessionToUser (heartbeatScan now pre s) (SessionID x) = sessionToUser s (SessionID x)"
  proof (rule heartbeatScan_sid)
    fix v y assume v: "v \<in> set pre" and y: "userSessions s v = Some y"
    from v n(1) have "v \<noteq> userID" by blast
    with y show "SessionID y \<noteq> SessionID x" by (rule uniq)
  qed
  have b: "sessionToUser (checkSession now userID (heartbeatScan now pre s)) (SessionID x)
             = sessionToUser (heartbeatScan now pre s) (SessionID x)"
    by (simp only: checkSession_kept(1) [OF x1 kept])
  have c: "sessionToUser
             (heartbeatScan now post (checkSession now userID (heartbeatScan now pre s)))
             (SessionID x)
           = sessionToUser (checkSession now userID (heartbeatScan now pre s)) (SessionID x)"
  proof (rule heartbeatScan_sid)
    fix v y
    assume v: "v \<in> set post"
      and y: "userSessions (checkSession now userID (heartbeatScan now pre s)) v = Some y"
    from scan_before [OF y] obtain y0 where
      y0: "userSessions s v = Some y0" "SessionID y0 = SessionID y" by blast
    from v n(2) have "v \<noteq> userID" by blast
    with y0(1) have "SessionID y0 \<noteq> SessionID x" by (rule uniq)
    with y0(2) show "SessionID y \<noteq> SessionID x" by simp
  qed
  from a b c show ?thesis by (simp only: scan)
qed

lemma heartbeatScan_kept_conn:
  assumes d: "distinct ks" and m: "userID \<in> set ks"
    and x: "userSessions s userID = Some x"
    and kept: "\<not> Sub now (LastHeartbeat x) > 60 * Second \<or>
               \<not> ShouldBeCleaned (IncrementMissedBeats x)"
    and uniq: "\<And>v y. userSessions s v = Some y \<Longrightarrow> v \<noteq> userID \<Longrightarrow> Conn y \<noteq> Conn x"
  shows "Conn x \<in> closedConns (heartbeatScan now ks s) \<longleftrightarrow> Conn x \<in> closedConns s"
proof -
  obtain pre post where "ks = pre @ userID # post"
    and n: "userID \<notin> set pre" "userID \<notin> set post"
    and scan: "heartbeatScan now ks s
                 = heartbeatScan now post (checkSession now userID (heartbeatScan now pre s))"
    and x1: "userSessions (heartbeatScan now pre s) userID = Some x"
    by (rule heartbeatScan_split [OF d m x, of now])
  have a: "Conn x \<in> closedConns (heartbeatScan now pre s) \<longleftrightarrow> Conn x \<in> closedConns s"
  proof (rule heartbeatScan_conn)
    fix v y assume v: "v \<in> set pre" and y: "userSessions s v = Some y"
    from v n(1) have "v \<noteq> userID" by blast
    with y show "Conn y \<noteq> Conn x" by (rule uniq)
  qed
  have b: "Conn x \<in> closedConns (checkSession now userID (heartbeatScan now pre s))
             \<longleftrightarrow> Conn x \<in> closedConns (heartbeatScan now pre s)"
    by (simp only: checkSession_kept(2) [OF x1 kept])
  have c: "Conn x \<in> closedConns
             (heartbeatScan now post (checkSession now userID (heartbeatScan now pre s)))
           \<longleftrightarrow> Conn x \<in> closedConns (checkSession now userID (heartbeatScan now pre s))"
  proof (rule heartbeatScan_conn)
    fix v y
    assume v: "v \<in> set post"
      and y: "userSessions (checkSession now userID (heartbeatScan now pre s)) v = Some y"
    from scan_before [OF y] obtain y0 where
      y0: "userSessions s v = Some y0" "Conn y0 = Conn y" by blast
    from v n(2) have "v \<noteq> userID" by blast
    with y0(1) have "Conn y0 \<noteq> Conn x" by (rule uniq)
    with y0(2) show "Conn y \<noteq> Conn x" by simp
  qed
  from a b c show ?thesis by (simp only: scan)
qed

lemma reachable_session_ids_unique:
  assumes "reachable s" and "userSessions s u = Some x"
  shows "\<forall>v y. userSessions s v = Some y \<and> SessionID y = SessionID x \<longrightarrow> v = u"
  using ic_user_inj [OF reachable_consistent [OF assms(1)]] assms(2) by metis

text \<open>
  Claim C5. One scan of the monitor reads the clock once (\<open>now\<close>) and visits every entry
  of the identity index once, in some order \<open>ks\<close>. For a session \<open>x\<close> registered under
  \<open>userID\<close>:
  if the time since its last heartbeat is at most 60 seconds, the scan leaves its entry
  as it was, counter included;
  if the gap exceeds 60 seconds, the counter is incremented, and the session is evicted
  (both index entries removed, handle closed) exactly when the incremented counter is at
  least 3, in the signed comparison of the code; otherwise it stays registered with the
  incremented counter.
  While the session stays registered, its session-id key is left as it was provided no
  other registered session bears the same session id (so it is in every reachable state,
  by \<open>reachable_session_ids_unique\<close>), and its handle is closed after the scan only if it
  was before, provided no other registered session holds the same handle.
  A heartbeat taken at time \<open>t\<close> before the scan, with \<open>now - t\<close> at most 60 seconds,
  leaves the session registered with counter 0 and last heartbeat \<open>t\<close> after the scan.
\<close>

theorem heartbeat_scan_session:
  assumes d: "distinct ks" and m: "userID \<in> set ks"
    and x: "userSessions s userID = Some x"
  shows
    "(Sub now (LastHeartbeat x) \<le> 60 * Second \<longrightarrow>
        userSessions (heartbeatScan now ks s) userID = Some x) \<and>
     (Sub now (LastHeartbeat x) > 60 * Second \<and> \<not> 3 \<le>s MissedBeats x + 1 \<longrightarrow>
        userSessions (heartbeatScan now ks s) userID
          = Some (x\<lparr>MissedBeats := MissedBeats x + 1\<rparr>)) \<and>
     (Sub now (LastHeartbeat x) > 60 * Second \<and> 3 \<le>s MissedBeats x + 1 \<longrightarrow>
        userSessions (heartbeatScan now ks s) userID = None \<and>
        sessionToUser (heartbeatScan now ks s) (SessionID x) = None \<and>
        Conn x \<in> closedConns (heartbeatScan now ks s)) \<and>
     ((Sub now (LastHeartbeat x) \<le> 60 * Second \<or> \<not> 3 \<le>s MissedBeats x + 1) \<and>
      (\<forall>v y. userSessions s v = Some y \<and> SessionID y = SessionID x \<longrightarrow> v = userID) \<longrightarrow>
        sessionToUser (heartbeatScan now ks s) (SessionID x) = sessionToUser s (SessionID x)) \<and>
     ((Sub now (LastHeartbeat x) \<le> 60 * Second \<or> \<not> 3 \<le>s MissedBeats x + 1) \<and>
      (\<forall>v y. userSessions s v = Some y \<and> Conn y = Conn x \<longrightarrow> v = userID) \<longrightarrow>
        (Conn x \<in> closedConns (heartbeatScan now ks s) \<longleftrightarrow> Conn x \<in> closedConns s)) \<and>
     (Sub now t \<le> 60 * Second \<longrightarrow>
        userSessions (heartbeatScan now ks (snd (UpdateHeartbeat t userID s))) userID
          = Some (x\<lparr>LastHeartbeat := t, MissedBeats := 0\<rparr>))"
proof (intro conjI impI)
  note entry = heartbeatScan_entry [OF d m x, of now]
  note cs = checkSession_cases [OF x, of now]
  show "userSessions (heartbeatScan now ks s) userID = Some x"
    if "Sub now (LastHeartbeat x) \<le> 60 * Second"
    using that x by (simp add: entry cs)
  show "userSessions (heartbeatScan now ks s) userID = Some (x\<lparr>MissedBeats := MissedBeats x + 1\<rparr>)"
    if "Sub now (LastHeartbeat x) > 60 * Second \<and> \<not> 3 \<le>s MissedBeats x + 1"
    using that by (simp add: entry cs ShouldBeCleaned_def IncrementMissedBeats_def)
  {
    assume a: "Sub now (LastHeartbeat x) > 60 * Second \<and> 3 \<le>s MissedBeats x + 1"
    then have late: "Sub now (LastHeartbeat x) > 60 * Second"
      and full: "ShouldBeCleaned (IncrementMissedBeats x)"
      by (simp_all add: ShouldBeCleaned_def)
    show "userSessions (heartbeatScan now ks s) userID = None"
      using late full by (simp add: entry cs)
    show "sessionToUser (heartbeatScan now ks s) (SessionID x) = None"
      by (rule heartbeatScan_evicted [OF d m x late full])
    show "Conn x \<in> closedConns (heartbeatScan now ks s)"
      by (rule heartbeatScan_evicted [OF d m x late full])
  }
  {
    assume a: "(Sub now (LastHeartbeat x) \<le> 60 * Second \<or> \<not> 3 \<le>s MissedBeats x + 1) \<and>
      (\<forall>v y. userSessions s v = Some y \<and> SessionID y = SessionID x \<longrightarrow> v = userID)"
    then have kept: "\<not> Sub now (LastHeartbeat x) > 60 * Second \<or>
               \<not> ShouldBeCleaned (IncrementMissedBeats x)"
      by (auto simp: ShouldBeCleaned_def)
    show "sessionToUser (heartbeatScan now ks s) (SessionID x) = sessionToUser s (SessionID x)"
    proof (rule heartbeatScan_kept_sid [OF d m x kept])
      fix v y assume "userSessions s v = Some y" "v \<noteq> userID"
      with a show "SessionID y \<noteq> SessionID x" by blast
    qed
  }
  {
    assume a: "(Sub now (LastHeartbeat x) \<le> 60 * Second \<or> \<not> 3 \<le>s MissedBeats x + 1) \<and>
      (\<forall>v y. userSessions s v = Some y \<and> Conn y = Conn x \<longrightarrow> v = userID)"
    then have kept: "\<not> Sub now (LastHeartbeat x) > 60 * Second \<or>
               \<not> ShouldBeCleaned (IncrementMissedBeats x)"
      by (auto simp: ShouldBeCleaned_def)
    show "Conn x \<in> closedConns (heartbeatScan now ks s) \<longleftrightarrow> Conn x \<in> closedConns s"
    proof (rule heartbeatScan_kept_conn [OF d m x kept])
      fix v y assume "userSessions s v = Some y" "v \<noteq> userID"
      with a show "Conn y \<noteq> Conn x" by blast
    qed
  }
  {
    assume a: "Sub now t \<le> 60 * Second"
    let ?x = "x\<lparr>LastHeartbeat := t, MissedBeats := 0\<rparr>"
    let ?s = "snd (UpdateHeartbeat t userID s)"
    have x': "userSessions ?s userID = Some ?x"
      by (simp add: UpdateHeartbeat_Some [OF x])
    have "checkSession now userID ?s = ?s"
      using a by (simp add: checkSession_cases [OF x'])
    with heartbeatScan_entry [OF d m x', of now] x'
    show "userSessions (heartbeatScan now ks ?s) userID = Some ?x"
      by simp
  }
qed

theorem heartbeat_scan_session_witness:
  "userSessions (heartbeatScan 30000000000 [43, 42] (registry2 (session42 0 0) (session43 0 2))) 42
     = Some (session42 0 0) \<and>
   sessionToUser (heartbeatScan 30000000000 [43, 42] (registry2 (session42 0 0) (session43 0 2)))
     ''sid-a'' = Some 42 \<and>
   7 \<notin> closedConns (heartbeatScan 30000000000 [43, 42] (registry2 (session42 0 0) (session43 0 2))) \<and>
   userSessions (heartbeatScan 61000000000 [43, 42] (registry2 (session42 0 1) (session43 0 2))) 42
     = Some (session42 0 2) \<and>
   sessionToUser (heartbeatScan 61000000000 [43, 42] (registry2 (session42 0 1) (session43 0 2)))
     ''sid-a'' = Some 42 \<and>
   userSessions (heartbeatScan 61000000000 [43, 42] (registry2 (session42 0 2) (session43 0 2))) 42
     = None \<and>
   sessionToUser (heartbeatScan 61000000000 [43, 42] (registry2 (session42 0 2) (session43 0 2)))
     ''sid-a'' = None \<and>
   7 \<in> closedConns (heartbeatScan 61000000000 [43, 42] (registry2 (session42 0 2) (session43 0 2))) \<and>
   userSessions
     (heartbeatScan 61000000000 [43, 42]
        (snd (UpdateHeartbeat 60000000000 42 (registry2 (session42 0 2) (session43 0 2))))) 42
     = Some (session42 60000000000 0)"
proof -
  have d: "distinct [43 :: int64, 42]" and m: "(42 :: int64) \<in> set [43, 42]" by simp_all
  have x: "userSessions (registry2 (session42 hb mb) (session43 0 2)) 42 = Some (session42 hb mb)"
    for hb mb by (simp add: ex_defs)
  have u: "\<forall>v y. userSessions (registry2 (session42 hb mb) (session43 0 2)) v = Some y \<and>
             SessionID y = SessionID (session42 hb mb) \<longrightarrow> v = 42"
    for hb mb by (auto simp: ex_defs split: if_splits)
  have uc: "\<forall>v y. userSessions (registry2 (session42 hb mb) (session43 0 2)) v = Some y \<and>
             Conn y = Conn (session42 hb mb) \<longrightarrow> v = 42"
    for hb mb by (auto simp: ex_defs split: if_splits)
  have sa: "sessionToUser (registry2 (session42 hb mb) (session43 0 2)) ''sid-a'' = Some 42"
    "closedConns (registry2 (session42 hb mb) (session43 0 2)) = {}"
    for hb mb by (simp_all add: ex_defs)
  have g1: "Sub 30000000000 (LastHeartbeat (session42 0 mb)) \<le> 60 * Second" for mb
    by (simp add: session42_def dur_defs)
  have g2: "Sub 61000000000 (LastHeartbeat (session42 0 mb)) > 60 * Second" for mb
    by (simp add: session42_def dur_defs)
  have g3: "Sub 61000000000 60000000000 \<le> 60 * Second"
    by (simp add: dur_defs)
  have c1: "\<not> 3 \<le>s MissedBeats (session42 0 1) + 1" by (simp add: session42_def)
  have c2: "3 \<le>s MissedBeats (session42 0 2) + 1" by (simp add: session42_def)
  have f: "SessionID (session42 hb mb) = ''sid-a''" "Conn (session42 hb mb) = 7"
    "session42 0 1\<lparr>MissedBeats := MissedBeats (session42 0 1) + 1\<rparr> = session42 0 2"
    "session42 0 2\<lparr>LastHeartbeat := 60000000000, MissedBeats := 0\<rparr> = session42 60000000000 0"
    for hb mb by (simp_all add: session42_def)
  from heartbeat_scan_session [OF d m x [of 0 0], where now = 30000000000] g1 [of 0]
    u [of 0 0] uc [of 0 0]
  have a1: "userSessions (heartbeatScan 30000000000 [43, 42] (registry2 (session42 0 0) (session43 0 2))) 42
     = Some (session42 0 0)"
    "sessionToUser (heartbeatScan 30000000000 [43, 42] (registry2 (session42 0 0) (session43 0 2)))
     ''sid-a'' = Some 42"
    "7 \<notin> closedConns (heartbeatScan 30000000000 [43, 42] (registry2 (session42 0 0) (session43 0 2)))"
    by (simp_all add: f sa)
  from heartbeat_scan_session [OF d m x [of 0 1], where now = 61000000000] g2 [of 1] c1
    u [of 0 1]
  have a2: "userSessions (heartbeatScan 61000000000 [43, 42] (registry2 (session42 0 1) (session43 0 2))) 42
     = Some (session42 0 2)"
    "sessionToUser (heartbeatScan 61000000000 [43, 42] (registry2 (session42 0 1) (session43 0 2)))
     ''sid-a'' = Some 42"
    by (simp_all add: f sa)
  from heartbeat_scan_session [OF d m x [of 0 2], where now = 61000000000 and t = 60000000000]
    g2 [of 2] c2 g3
  have a3: "userSessions (heartbeatScan 61000000000 [43, 42] (registry2 (session42 0 2) (session43 0 2))) 42
     = None"
    "sessionToUser (heartbeatScan 61000000000 [43, 42] (registry2 (session42 0 2) (session43 0 2)))
     ''sid-a'' = None"
    "7 \<in> closedConns (heartbeatScan 61000000000 [43, 42] (registry2 (session42 0 2) (session43 0 2)))"
    "userSessions
     (heartbeatScan 61000000000 [43, 42]
        (snd (UpdateHeartbeat 60000000000 42 (registry2 (session42 0 2) (session43 0 2))))) 42
     = Some (session42 60000000000 0)"
    by (simp_all add: f sa)
  from a1 a2 a3 show ?thesis by simp
qed

section \<open>Claim C9: the two removals\<close>

text \<open>
  Claim C9. \<open>RemoveUserBySessionID\<close> and \<open>RemoveUserByID\<close> each remove the matching
  session's entries from both indices when the key is present, change nothing (and raise
  nothing: they return the state alone) when the key is absent, and applying either twice
  to the same key gives the same state as applying it once.
\<close>

theorem remove_idempotent:
  "(\<forall>userID. sessionToUser s sessionID = Some userID \<longrightarrow>
      userSessions (RemoveUserBySessionID sessionID s) = (userSessions s)(userID := None) \<and>
      sessionToUser (RemoveUserBySessionID sessionID s) = (sessionToUser s)(sessionID := None)) \<and>
   (sessionToUser s sessionID = None \<longrightarrow> RemoveUserBySessionID sessionID s = s) \<and>
   RemoveUserBySessionID sessionID (RemoveUserBySessionID sessionID s)
     = RemoveUserBySessionID sessionID s \<and>
   (\<forall>session. userSessions s uid = Some session \<longrightarrow>
      userSessions (RemoveUserByID uid s) = (userSessions s)(uid := None) \<and>
      sessionToUser (RemoveUserByID uid s) = (sessionToUser s)(SessionID session := None)) \<and>
   (userSessions s uid = None \<longrightarrow> RemoveUserByID uid s = s) \<and>
   RemoveUserByID uid (RemoveUserByID uid s) = RemoveUserByID uid s"
  by (simp add: RemoveUserBySessionID_def RemoveUserByID_def logf_def split: option.splits)

theorem remove_idempotent_witness:
  "userSessions (RemoveUserBySessionID ''sid-a'' (registry2 (session42 0 0) (session43 0 0))) 42
     = None \<and>
   sessionToUser (RemoveUserBySessionID ''sid-a'' (registry2 (session42 0 0) (session43 0 0)))
     ''sid-a'' = None \<and>
   userSessions (RemoveUserBySessionID ''sid-a'' (registry2 (session42 0 0) (session43 0 0))) 43
     = Some (session43 0 0) \<and>
   RemoveUserBySessionID ''sid-z'' (registry2 (session42 0 0) (session43 0 0))
     = registry2 (session42 0 0) (session43 0 0) \<and>
   userSessions (RemoveUserByID 43 (registry2 (session42 0 0) (session43 0 0))) 43 = None \<and>
   sessionToUser (RemoveUserByID 43 (registry2 (session42 0 0) (session43 0 0))) ''sid-b''
     = None \<and>
   sessionToUser (RemoveUserByID 43 (registry2 (session42 0 0) (session43 0 0))) ''sid-a''
     = Some 42 \<and>
   RemoveUserByID 99 (registry2 (session42 0 0) (session43 0 0))
     = registry2 (session42 0 0) (session43 0 0)"
proof -
  let ?s = "registry2 (session42 0 0) (session43 0 0)"
  have k: "sessionToUser ?s ''sid-a'' = Some 42" "sessionToUser ?s ''sid-z'' = None"
    "userSessions ?s 43 = Some (session43 0 0)" "userSessions ?s 99 = None"
    by (simp_all add: ex_defs)
  note t1 = remove_idempotent [of ?s "''sid-a''" 43]
  note t2 = remove_idempotent [of ?s "''sid-z''" 99]
  from t1 k have
    "userSessions (RemoveUserBySessionID ''sid-a'' ?s) = (userSessions ?s)(42 := None)"
    "sessionToUser (RemoveUserBySessionID ''sid-a'' ?s) = (sessionToUser ?s)(''sid-a'' := None)"
    "userSessions (RemoveUserByID 43 ?s) = (userSessions ?s)(43 := None)"
    "sessionToUser (RemoveUserByID 43 ?s)
       = (sessionToUser ?s)(SessionID (session43 0 0) := None)"
    by blast+
  moreover from t2 k have
    "RemoveUserBySessionID ''sid-z'' ?s = ?s" "RemoveUserByID 99 ?s = ?s"
    by blast+
  ultimately show ?thesis by (simp add: ex_defs)
qed

section \<open>Claim C10: the liveness update\<close>

text \<open>
  Claim C10. For an identity with no registered session \<open>UpdateHeartbeat\<close> returns false
  and the state is unchanged. For a registered identity it returns true, sets that
  session's last-heartbeat time to the current time and its missed-beat counter to zero,
  writes one debug line, and changes nothing else: no other field of the session, no
  other session, neither index, no handle.
\<close>

theorem UpdateHeartbeat_spec:
  "(userSessions s userID = None \<longrightarrow> UpdateHeartbeat now userID s = (False, s)) \<and>
   (\<forall>session. userSessions s userID = Some session \<longrightarrow>
      UpdateHeartbeat now userID s =
        (True,
         s\<lparr>userSessions :=
              (userSessions s)(userID \<mapsto> session\<lparr>LastHeartbeat := now, MissedBeats := 0\<rparr>),
            logger := logger s @ [DebugHeartbeatUpdated userID]\<rparr>))"
  by (simp add: UpdateHeartbeat_def UpdateHeartbeat_session_def logf_def)

theorem UpdateHeartbeat_spec_witness:
  "UpdateHeartbeat 500 99 (registry2 (session42 0 2) (session43 0 1))
     = (False, registry2 (session42 0 2) (session43 0 1)) \<and>
   fst (UpdateHeartbeat 500 42 (registry2 (session42 0 2) (session43 0 1))) \<and>
   userSessions (snd (UpdateHeartbeat 500 42 (registry2 (session42 0 2) (session43 0 1)))) 42
     = Some (session42 500 0) \<and>
   userSessions (snd (UpdateHeartbeat 500 42 (registry2 (session42 0 2) (session43 0 1)))) 43
     = Some (session43 0 1) \<and>
   sessionToUser (snd (UpdateHeartbeat 500 42 (registry2 (session42 0 2) (session43 0 1))))
     = sessionToUser (registry2 (session42 0 2) (session43 0 1)) \<and>
   closedConns (snd (UpdateHeartbeat 500 42 (registry2 (session42 0 2) (session43 0 1)))) = {}"
proof -
  let ?s = "registry2 (session42 0 2) (session43 0 1)"
  have k: "userSessions ?s 99 = None" "userSessions ?s 42 = Some (session42 0 2)"
    by (simp_all add: ex_defs)
  from UpdateHeartbeat_spec [of ?s 99 500] k
  have a: "UpdateHeartbeat 500 99 ?s = (False, ?s)" by blast
  from UpdateHeartbeat_spec [of ?s 42 500] k
  have "UpdateHeartbeat 500 42 ?s =
        (True,
         ?s\<lparr>userSessions :=
              (userSessions ?s)(42 \<mapsto> (session42 0 2)\<lparr>LastHeartbeat := 500, MissedBeats := 0\<rparr>),
            logger := logger ?s @ [DebugHeartbeatUpdated 42]\<rparr>)"
    by blast
  with a show ?thesis by (simp add: ex_defs)
qed

section \<open>Claim C6: sending to an identity\<close>

lemma SendMessageToUser_offline:
  assumes "userSessions s userID = None"
  shows "SendMessageToUser wr userID message s
           = (Some ErrUserOffline, s\<lparr>logger := logger s @ [WarnUserOffline userID]\<rparr>)"
  using assms by (simp add: SendMessageToUser_def logf_def)

lemma SendMessageToUser_write_failed:
  assumes "userSessions s userID = Some session" and "wr (Conn session) message = Some err"
  shows "SendMessageToUser wr userID message s
           = (Some err,
              s\<lparr>writes := writes s @ [(Conn session, message)],
                logger := logger s @ [ErrorSendFailed userID err],
                spawned := spawned s @ [GoRemoveUserByID userID]\<rparr>)"
  using assms by (simp add: SendMessageToUser_def WriteMessage_def logf_def)

lemma SendMessageToUser_written:
  assumes "userSessions s userID = Some session" and "wr (Conn session) message = None"
  shows "SendMessageToUser wr userID message s
           = (None,
              s\<lparr>writes := writes s @ [(Conn session, message)],
                logger := logger s @ [InfoSendOK userID]\<rparr>)"
  using assms by (simp add: SendMessageToUser_def WriteMessage_def logf_def)

lemma RemoveUserByID_closedConns: "closedConns (RemoveUserByID userID s) = closedConns s"
  by (simp add: RemoveUserByID_def logf_def split: option.splits)

lemma RemoveUserBySessionID_closedConns:
  "closedConns (RemoveUserBySessionID sessionID s) = closedConns s"
  by (simp add: RemoveUserBySessionID_def logf_def split: option.splits)

lemma SendMessageToUser_closedConns:
  "closedConns (snd (SendMessageToUser wr userID message s)) = closedConns s"
  by (simp add: SendMessageToUser_def WriteMessage_def logf_def split: option.splits)

lemma runSpawned_closedConns: "closedConns (runSpawned i s) = closedConns s"
proof (cases "i < length (spawned s)")
  case True
  then show ?thesis
    by (cases "spawned s ! i") (simp_all add: runSpawned_def RemoveUserByID_closedConns)
next
  case False
  then show ?thesis by (simp add: runSpawned_def)
qed

text \<open>
  Claim C6 says that a failed transport write returns the error and tears the session
  down asynchronously: removed from both indices and its handle closed. Evaluated on the
  registry holding identities 42 and 43: a send to the unregistered identity 99 returns
  \<open>ErrUserOffline\<close> and leaves both indices as they were; a send to identity 42 over a
  transport whose write fails returns the write error and launches \<open>RemoveUserByID 42\<close>;
  once that goroutine has run, both index entries of the session are gone, but its handle
  7 has not been closed: \<open>RemoveUserByID\<close> deletes the entries only, where the monitor's
  eviction and the replacement in \<open>RegisterUser\<close> call \<open>Conn.Close\<close> first.
\<close>

theorem send_failure_teardown_keeps_handle_open:
  "fst (SendMessageToUser healthy 99 aiAnswer (registry2 (session42 0 0) (session43 0 0)))
     = Some ErrUserOffline \<and>
   userSessions (snd (SendMessageToUser healthy 99 aiAnswer (registry2 (session42 0 0) (session43 0 0))))
     = userSessions (registry2 (session42 0 0) (session43 0 0)) \<and>
   sessionToUser (snd (SendMessageToUser healthy 99 aiAnswer (registry2 (session42 0 0) (session43 0 0))))
     = sessionToUser (registry2 (session42 0 0) (session43 0 0)) \<and>
   fst (SendMessageToUser brokenPipe 42 aiAnswer (registry2 (session42 0 0) (session43 0 0)))
     = Some (WriteError ''write: broken pipe'') \<and>
   spawned (snd (SendMessageToUser brokenPipe 42 aiAnswer (registry2 (session42 0 0) (session43 0 0))))
     = [GoRemoveUserByID 42] \<and>
   userSessions
     (runSpawned 0
        (snd (SendMessageToUser brokenPipe 42 aiAnswer (registry2 (session42 0 0) (session43 0 0)))))
     42 = None \<and>
   sessionToUser
     (runSpawned 0
        (snd (SendMessageToUser brokenPipe 42 aiAnswer (registry2 (session42 0 0) (session43 0 0)))))
     ''sid-a'' = None \<and>
   7 \<notin> closedConns
     (runSpawned 0
        (snd (SendMessageToUser brokenPipe 42 aiAnswer (registry2 (session42 0 0) (session43 0 0)))))"
  by (simp add: SendMessageToUser_def WriteMessage_def logf_def runSpawned_def RemoveUserByID_def
        healthy_def brokenPipe_def ex_defs)

text \<open>
  The teardown is by identity and runs later: if the identity has registered again in
  between, it is the newer session that is removed, and its handle 9 stays open as well.
\<close>

lemma teardown_removes_the_newer_session:
  "userSessions
     (runSpawned 0
        (RegisterUser 10 42 ''user42'' 9 ''sid-c'' ''10.0.0.1''
           (snd (SendMessageToUser brokenPipe 42 aiAnswer
                   (registry2 (session42 0 0) (session43 0 0))))))
     42 = None \<and>
   sessionToUser
     (runSpawned 0
        (RegisterUser 10 42 ''user42'' 9 ''sid-c'' ''10.0.0.1''
           (snd (SendMessageToUser brokenPipe 42 aiAnswer
                   (registry2 (session42 0 0) (session43 0 0))))))
     ''sid-c'' = None \<and>
   closedConns
     (runSpawned 0
        (RegisterUser 10 42 ''user42'' 9 ''sid-c'' ''10.0.0.1''
           (snd (SendMessageToUser brokenPipe 42 aiAnswer
                   (registry2 (session42 0 0) (session43 0 0))))))
     = {7}"
  by (simp add: SendMessageToUser_def WriteMessage_def logf_def runSpawned_def RemoveUserByID_def
        RegisterUser_def brokenPipe_def ex_defs)

section \<open>Claim C7: the router by message kind\<close>




section \<open>Claim C2: the iteration budget of the agent loop\<close>

lemma runToolCalls_map:
  "runToolCalls un ma r calls messages = messages @ map (toolMessage un ma r) calls"
  unfolding runToolCalls_def
  by (induction calls arbitrary: messages) simp_all

lemma agentLoop_tool_step:
  assumes "i < maxIterations" and "ChatWithTools i messages = Inr resp"
    and "Output_Choices resp = c # cs" and "ToolCalls (Choice_Message c) \<noteq> []"
  shows "agentLoop ChatWithTools un ma r i messages
           = agentLoop ChatWithTools un ma r (i + 1)
               (messages @ [Choice_Message c] @
                  map (toolMessage un ma r) (ToolCalls (Choice_Message c)))"
  using assms
  by (subst agentLoop.simps) (simp add: Let_def runToolCalls_map)

lemma agentLoop_exhausted:
  assumes "\<And>n ms. \<exists>resp c cs. ChatWithTools n ms = Inr resp \<and> Output_Choices resp = c # cs \<and>
             ToolCalls (Choice_Message c) \<noteq> []"
  shows "i \<le> maxIterations \<Longrightarrow>
         finalResponse (agentLoop ChatWithTools un ma r i messages) = [] \<and>
         llmCalls (agentLoop ChatWithTools un ma r i messages) = maxIterations"
proof (induction "maxIterations - i" arbitrary: i messages)
  case 0
  then have "i = maxIterations" by simp
  then show ?case by (subst (1 2) agentLoop.simps) simp
next
  case (Suc k)
  then have lt: "i < maxIterations" by simp
  from assms [of i messages] obtain resp c cs where
    a: "ChatWithTools i messages = Inr resp" "Output_Choices resp = c # cs"
       "ToolCalls (Choice_Message c) \<noteq> []" by blast
  from Suc have "k = maxIterations - (i + 1)" "i + 1 \<le> maxIterations" by simp_all
  from Suc.hyps(1) [OF this]
  show ?case
    by (simp add: agentLoop_tool_step [where ChatWithTools = ChatWithTools, OF lt a])
qed

text \<open>
  Claim C2 says that when the collaborator asks for tools at every iteration the loop
  makes at most 5 calls and ends with the fixed apology text. With a collaborator that
  always asks for the order tool the loop makes exactly 5 calls and stops, so the first
  half holds (\<open>agentLoop_exhausted\<close> shows it for every such collaborator); but no branch
  has assigned \<open>finalResponse\<close>, and the text posted to the gateway is the empty string,
  which is neither of the two apology texts the other exits assign.
\<close>

theorem budget_exhaustion_returns_empty:
  "llmCalls (agentLoop alwaysTool exUnmarshal exMarshal exRegistry 0 exBuffer) = 5 \<and>
   finalResponse (agentLoop alwaysTool exUnmarshal exMarshal exRegistry 0 exBuffer) = [] \<and>
   processRequest ''you are a shop assistant'' alwaysTool exUnmarshal exMarshal exRegistry
       \<lparr>req_UserID = 42, req_Question = ''where is my order'', req_Category = ''order.status''\<rparr>
     = \<lparr>ai_UserID = 42, ai_Content = [], ai_Source = ''assistant''\<rparr> \<and>
   llmFailedText \<noteq> [] \<and> noAnswerText \<noteq> []"
proof -
  have h: "\<exists>resp c cs. alwaysTool n ms = Inr resp \<and> Output_Choices resp = c # cs \<and>
             ToolCalls (Choice_Message c) \<noteq> []" for n ms
    by (simp add: alwaysTool_def toolRequest_def)
  have "finalResponse (agentLoop alwaysTool exUnmarshal exMarshal exRegistry 0 ms) = [] \<and>
        llmCalls (agentLoop alwaysTool exUnmarshal exMarshal exRegistry 0 ms) = maxIterations" for ms
    by (rule agentLoop_exhausted [OF h]) simp
  then show ?thesis
    by (simp add: processRequest_def sendToIM_def exBuffer_def maxIterations_def
          llmFailedText_def noAnswerText_def)
qed

section \<open>Claim C8: failed tool calls stay in the conversation\<close>

text \<open>
  Claim C8. In the tool-execution phase, a call whose tool is not registered, whose
  arguments do not parse, or whose execution returns an error (a missing handler
  included) yields a tool-role entry tagged with the call id whose content is the
  serialized object \<open>{"error": text}\<close>; the phase appends exactly one entry per requested
  call, in order, after the assistant entry; and whenever the collaborator asked for
  tools within the budget the loop goes on to the next iteration with that buffer,
  whatever the calls returned.
\<close>

theorem tool_failures_absorbed:
  "(tools r (Name (tc_Function tc)) = None \<longrightarrow>
      toolMessage un ma r tc
        = \<lparr>Role = ''tool'',
           Content = ma (JObj [(''error'', JStr (''tool not found: '' @ Name (tc_Function tc)))]),
           ToolCalls = [], ToolCallID = tc_ID tc\<rparr>) \<and>
   (\<forall>tool e. tools r (Name (tc_Function tc)) = Some tool \<and>
        un (Arguments (tc_Function tc)) = Inl e \<longrightarrow>
      toolMessage un ma r tc
        = \<lparr>Role = ''tool'',
           Content = ma (JObj [(''error'', JStr (parseFailedPrefix @ e))]),
           ToolCalls = [], ToolCallID = tc_ID tc\<rparr>) \<and>
   (\<forall>tool ps e. tools r (Name (tc_Function tc)) = Some tool \<and>
        un (Arguments (tc_Function tc)) = Inr ps \<and> Execute_tool tool ps = Inl e \<longrightarrow>
      toolMessage un ma r tc
        = \<lparr>Role = ''tool'', Content = ma (JObj [(''error'', JStr e)]),
           ToolCalls = [], ToolCallID = tc_ID tc\<rparr>) \<and>
   runToolCalls un ma r calls messages = messages @ map (toolMessage un ma r) calls \<and>
   (\<forall>resp c cs. i < maxIterations \<and> ChatWithTools i messages = Inr resp \<and>
        Output_Choices resp = c # cs \<and> ToolCalls (Choice_Message c) \<noteq> [] \<longrightarrow>
      agentLoop ChatWithTools un ma r i messages
        = agentLoop ChatWithTools un ma r (i + 1)
            (messages @ [Choice_Message c] @
               map (toolMessage un ma r) (ToolCalls (Choice_Message c))))"
proof (intro conjI allI impI)
  show "runToolCalls un ma r calls messages = messages @ map (toolMessage un ma r) calls"
    by (rule runToolCalls_map)
next
  fix resp c cs
  assume "i < maxIterations \<and> ChatWithTools i messages = Inr resp \<and>
        Output_Choices resp = c # cs \<and> ToolCalls (Choice_Message c) \<noteq> []"
  then show "agentLoop ChatWithTools un ma r i messages
        = agentLoop ChatWithTools un ma r (i + 1)
            (messages @ [Choice_Message c] @
               map (toolMessage un ma r) (ToolCalls (Choice_Message c)))"
    by (simp add: agentLoop_tool_step)
qed (simp_all add: toolMessage_def Execute_def Get_def ParseArguments_def Let_def)


theorem tool_failures_absorbed_witness:
  "toolMessage exUnmarshal exMarshal exRegistry (exCall ''c1'' ''get_weather'' ''{}'')
     = \<lparr>Role = ''tool'', Content = ''error: tool not found: get_weather'',
        ToolCalls = [], ToolCallID = ''c1''\<rparr> \<and>
   toolMessage exUnmarshal exMarshal exRegistry (exCall ''c2'' ''get_order_detail'' ''{'')
     = \<lparr>Role = ''tool'',
        Content = ''error: '' @ parseFailedPrefix @ ''unexpected end of JSON input'',
        ToolCalls = [], ToolCallID = ''c2''\<rparr> \<and>
   toolMessage exUnmarshal exMarshal exRegistry (exCall ''c3'' ''get_logistics'' ''{}'')
     = \<lparr>Role = ''tool'', Content = ''error: logistics backend unavailable'',
        ToolCalls = [], ToolCallID = ''c3''\<rparr> \<and>
   finalResponse (agentLoop thenAnswer exUnmarshal exMarshal exRegistry 0 exBuffer)
     = ''please try again later'' \<and>
   llmCalls (agentLoop thenAnswer exUnmarshal exMarshal exRegistry 0 exBuffer) = 2 \<and>
   map ToolCallID (drop 3 (buffer (agentLoop thenAnswer exUnmarshal exMarshal exRegistry 0 exBuffer)))
     = [''c1'', ''c2'', ''c3'']"
proof -
  let ?c1 = "exCall ''c1'' ''get_weather'' ''{}''"
  let ?c2 = "exCall ''c2'' ''get_order_detail'' ''{''"
  let ?c3 = "exCall ''c3'' ''get_logistics'' ''{}''"
  let ?order = "\<lparr>tool_Name = ''get_order_detail'', tool_Description = ''order status'',
            Handler = Some (\<lambda>ps. Inr (JStr ''shipped''))\<rparr>"
  let ?logistics = "\<lparr>tool_Name = ''get_logistics'', tool_Description = ''parcel location'',
            Handler = Some (\<lambda>ps. Inl ''logistics backend unavailable'')\<rparr>"
  have h1: "tools exRegistry (Name (tc_Function ?c1)) = None"
    by (simp add: exRegistry_def exCall_def)
  have h2: "tools exRegistry (Name (tc_Function ?c2)) = Some ?order \<and>
            exUnmarshal (Arguments (tc_Function ?c2)) = Inl ''unexpected end of JSON input''"
    by (simp add: exRegistry_def exCall_def exUnmarshal_def)
  have h3: "tools exRegistry (Name (tc_Function ?c3)) = Some ?logistics \<and>
            exUnmarshal (Arguments (tc_Function ?c3)) = Inr [] \<and>
            Execute_tool ?logistics [] = Inl ''logistics backend unavailable''"
    by (simp add: exRegistry_def exCall_def exUnmarshal_def Execute_tool_def)
  have ids: "tc_ID ?c1 = ''c1''" "tc_ID ?c2 = ''c2''" "tc_ID ?c3 = ''c3''"
    "Name (tc_Function ?c1) = ''get_weather''"
    by (simp_all add: exCall_def)
  from tool_failures_absorbed [of exRegistry ?c1 exUnmarshal exMarshal] h1
  have m1: "toolMessage exUnmarshal exMarshal exRegistry ?c1
     = \<lparr>Role = ''tool'', Content = ''error: tool not found: get_weather'',
        ToolCalls = [], ToolCallID = ''c1''\<rparr>"
    by (simp add: ids exMarshal_def)
  from tool_failures_absorbed [of exRegistry ?c2 exUnmarshal exMarshal] h2
  have "toolMessage exUnmarshal exMarshal exRegistry ?c2
     = \<lparr>Role = ''tool'',
        Content = exMarshal (JObj [(''error'',
                    JStr (parseFailedPrefix @ ''unexpected end of JSON input''))]),
        ToolCalls = [], ToolCallID = tc_ID ?c2\<rparr>"
    by blast
  then have m2: "toolMessage exUnmarshal exMarshal exRegistry ?c2
     = \<lparr>Role = ''tool'',
        Content = ''error: '' @ parseFailedPrefix @ ''unexpected end of JSON input'',
        ToolCalls = [], ToolCallID = ''c2''\<rparr>"
    by (simp add: ids exMarshal_def)
  from tool_failures_absorbed [of exRegistry ?c3 exUnmarshal exMarshal] h3
  have "toolMessage exUnmarshal exMarshal exRegistry ?c3
     = \<lparr>Role = ''tool'',
        Content = exMarshal (JObj [(''error'', JStr ''logistics backend unavailable'')]),
        ToolCalls = [], ToolCallID = tc_ID ?c3\<rparr>"
    by blast
  then have m3: "toolMessage exUnmarshal exMarshal exRegistry ?c3
     = \<lparr>Role = ''tool'', Content = ''error: logistics backend unavailable'',
        ToolCalls = [], ToolCallID = ''c3''\<rparr>"
    by (simp add: ids exMarshal_def)
  let ?asst = "\<lparr>Role = ''assistant'', Content = [], ToolCalls = failingCalls, ToolCallID = []\<rparr>"
  let ?buf = "exBuffer @ [?asst] @ map (toolMessage exUnmarshal exMarshal exRegistry) failingCalls"
  have h4: "0 < maxIterations \<and> thenAnswer 0 exBuffer = Inr (toolRequest failingCalls) \<and>
      Output_Choices (toolRequest failingCalls)
        = \<lparr>FinishReason = ''tool_calls'', Choice_Message = ?asst\<rparr> # [] \<and>
      ToolCalls (Choice_Message \<lparr>FinishReason = ''tool_calls'', Choice_Message = ?asst\<rparr>) \<noteq> []"
    by (simp add: maxIterations_def thenAnswer_def toolRequest_def failingCalls_def)
  from tool_failures_absorbed
         [where i = 0 and messages = exBuffer and ChatWithTools = thenAnswer
            and un = exUnmarshal and ma = exMarshal and r = exRegistry] h4
  have "agentLoop thenAnswer exUnmarshal exMarshal exRegistry 0 exBuffer
          = agentLoop thenAnswer exUnmarshal exMarshal exRegistry (0 + 1)
              (exBuffer @ [Choice_Message \<lparr>FinishReason = ''tool_calls'', Choice_Message = ?asst\<rparr>] @
                 map (toolMessage exUnmarshal exMarshal exRegistry)
                   (ToolCalls (Choice_Message \<lparr>FinishReason = ''tool_calls'', Choice_Message = ?asst\<rparr>)))"
    by blast
  then have step: "agentLoop thenAnswer exUnmarshal exMarshal exRegistry 0 exBuffer
          = agentLoop thenAnswer exUnmarshal exMarshal exRegistry 1 ?buf"
    by simp
  have fin: "agentLoop thenAnswer exUnmarshal exMarshal exRegistry 1 ?buf
          = \<lparr>finalResponse = ''please try again later'', llmCalls = 2, buffer = ?buf\<rparr>"
    by (subst agentLoop.simps) (simp add: maxIterations_def thenAnswer_def)
  from step fin
  have res: "agentLoop thenAnswer exUnmarshal exMarshal exRegistry 0 exBuffer
          = \<lparr>finalResponse = ''please try again later'', llmCalls = 2, buffer = ?buf\<rparr>"
    by (rule trans)
  have "map ToolCallID (drop 3 ?buf) = [''c1'', ''c2'', ''c3'']"
    by (simp add: exBuffer_def failingCalls_def m1 m2 m3)
  with m1 m2 m3 show ?thesis unfolding res by simp
qed

section \<open>Claim C4: a pending request is settled at most once\<close>

lemma pending_invI:
  assumes "\<And>k e. pendingResponses st k = Some e \<Longrightarrow>
             \<exists>tm. timers st (timeout e) = Some tm \<and> t_promise tm = promise e \<and> t_messageId tm = k"
    and "\<And>t tm. timers st t = Some tm \<Longrightarrow> t_promise tm \<notin> fst ` set (settlements st)"
    and "\<And>t tm. timers st t = Some tm \<Longrightarrow> t < nextTimer st"
    and "\<And>t tm. timers st t = Some tm \<Longrightarrow> t_promise tm < nextPromise st"
    and "\<And>t t' tm tm'. timers st t = Some tm \<Longrightarrow> timers st t' = Some tm' \<Longrightarrow>
             t_promise tm = t_promise tm' \<Longrightarrow> t = t'"
    and "\<And>p. p \<in> fst ` set (settlements st) \<Longrightarrow> p < nextPromise st"
    and "distinct (map fst (settlements st))"
  shows "pending_inv st"
  unfolding pending_inv_def using assms by blast

lemma pi_entry:
  "pending_inv st \<Longrightarrow> pendingResponses st k = Some e \<Longrightarrow>
     \<exists>tm. timers st (timeout e) = Some tm \<and> t_promise tm = promise e \<and> t_messageId tm = k"
  by (simp add: pending_inv_def)

lemma pi_timer:
  "pending_inv st \<Longrightarrow> timers st t = Some tm \<Longrightarrow>
     t_promise tm \<notin> fst ` set (settlements st) \<and> t < nextTimer st \<and> t_promise tm < nextPromise st"
  by (simp add: pending_inv_def)

lemma pi_unique:
  "pending_inv st \<Longrightarrow> timers st t = Some tm \<Longrightarrow> timers st t' = Some tm' \<Longrightarrow>
     t_promise tm = t_promise tm' \<Longrightarrow> t = t'"
  by (simp add: pending_inv_def)

lemma pi_settled:
  "pending_inv st \<Longrightarrow> p \<in> fst ` set (settlements st) \<Longrightarrow> p < nextPromise st"
  by (simp add: pending_inv_def) blast

lemma pi_distinct: "pending_inv st \<Longrightarrow> distinct (map fst (settlements st))"
  by (simp add: pending_inv_def)

lemma pending_inv_new: "pending_inv newManager"
  by (simp add: pending_inv_def newManager_def)

lemma pending_inv_cong:
  assumes "pendingResponses st' = pendingResponses st" "timers st' = timers st"
    "settlements st' = settlements st" "nextTimer st' = nextTimer st"
    "nextPromise st' = nextPromise st"
  shows "pending_inv st' = pending_inv st"
  by (simp add: pending_inv_def assms)

text \<open>Settling the promise of an armed timeout and disarming it keeps the invariant,
  whatever entry is deleted from the table.\<close>

lemma pending_inv_settle:
  assumes inv: "pending_inv st" and tm: "timers st t = Some tm"
    and del: "\<And>k e. pendingResponses st k = Some e \<Longrightarrow> timeout e = t \<Longrightarrow> k = kd"
  shows "pending_inv
           (st\<lparr>timers := (timers st)(t := None),
               pendingResponses := (pendingResponses st)(kd := None),
               settlements := settlements st @ [(t_promise tm, x)]\<rparr>)"
    (is "pending_inv ?st'")
proof (rule pending_invI)
  fix k e
  assume "pendingResponses ?st' k = Some e"
  then have k: "k \<noteq> kd" and e: "pendingResponses st k = Some e"
    by (auto split: if_splits)
  from pi_entry [OF inv e] obtain tm' where
    tm': "timers st (timeout e) = Some tm'" "t_promise tm' = promise e" "t_messageId tm' = k"
    by blast
  from del [OF e] k have "timeout e \<noteq> t" by blast
  with tm' show "\<exists>tm. timers ?st' (timeout e) = Some tm \<and> t_promise tm = promise e \<and>
                   t_messageId tm = k"
    by simp
next
  fix t' tm'
  assume "timers ?st' t' = Some tm'"
  then have ne: "t' \<noteq> t" and a: "timers st t' = Some tm'"
    by (auto split: if_splits)
  from pi_unique [OF inv a tm] ne have "t_promise tm' \<noteq> t_promise tm" by blast
  with pi_timer [OF inv a]
  show "t_promise tm' \<notin> fst ` set (settlements ?st')" by simp
  from pi_timer [OF inv a] show "t' < nextTimer ?st'" by simp
  from pi_timer [OF inv a] show "t_promise tm' < nextPromise ?st'" by simp
next
  fix t1 t2 tm1 tm2
  assume "timers ?st' t1 = Some tm1" "timers ?st' t2 = Some tm2" "t_promise tm1 = t_promise tm2"
  then have "timers st t1 = Some tm1" "timers st t2 = Some tm2" "t_promise tm1 = t_promise tm2"
    by (auto split: if_splits)
  then show "t1 = t2" by (rule pi_unique [OF inv])
next
  fix p
  assume "p \<in> fst ` set (settlements ?st')"
  then have "p = t_promise tm \<or> p \<in> fst ` set (settlements st)" by auto
  with pi_timer [OF inv tm] pi_settled [OF inv, of p]
  show "p < nextPromise ?st'" by auto
next
  from pi_distinct [OF inv] pi_timer [OF inv tm]
  show "distinct (map fst (settlements ?st'))" by simp
qed

lemma fireTimer_due:
  assumes "timers st t = Some tm" and "fire_at tm \<le> clock st"
  shows "fireTimer t st =
           st\<lparr>timers := (timers st)(t := None),
              pendingResponses := (pendingResponses st)(t_messageId tm := None),
              settlements := settlements st @ [(t_promise tm, RejectError timeoutText)]\<rparr>"
  using assms by (simp add: fireTimer_def)

lemma fireTimer_idle:
  assumes "timers st t = None \<or> (\<exists>tm. timers st t = Some tm \<and> \<not> fire_at tm \<le> clock st)"
  shows "fireTimer t st = st"
  using assms by (auto simp: fireTimer_def)

lemma pending_inv_fireTimer:
  assumes inv: "pending_inv st"
  shows "pending_inv (fireTimer t st)"
proof (cases "\<exists>tm. timers st t = Some tm \<and> fire_at tm \<le> clock st")
  case False
  then have "fireTimer t st = st" by (auto simp: fireTimer_def split: option.splits)
  with inv show ?thesis by simp
next
  case True
  then obtain tm where tm: "timers st t = Some tm" "fire_at tm \<le> clock st" by blast
  have "pending_inv
           (st\<lparr>timers := (timers st)(t := None),
               pendingResponses := (pendingResponses st)(t_messageId tm := None),
               settlements := settlements st @ [(t_promise tm, RejectError timeoutText)]\<rparr>)"
  proof (rule pending_inv_settle [OF inv tm(1)])
    fix k e
    assume "pendingResponses st k = Some e" "timeout e = t"
    with pi_entry [OF inv this(1)] tm(1) show "k = t_messageId tm" by auto
  qed
  then show ?thesis by (simp add: fireTimer_due [OF tm])
qed

lemma handleResponse_found:
  assumes "getProp response ''messageID'' = Some (JStr k)"
    and "pendingResponses st k = Some e"
  shows "handleResponse response st =
           st\<lparr>timers := (timers st)(timeout e := None),
              pendingResponses := (pendingResponses st)(k := None),
              settlements := settlements st @
                [(promise e,
                  if truthy (getProp response ''success'')
                  then Resolve \<lparr>rp_success = True, rp_message = getProp response ''message'',
                                rp_messageId = Some (JStr k)\<rparr>
                  else Reject \<lparr>rp_success = False, rp_message = getProp response ''message'',
                               rp_messageId = Some (JStr k)\<rparr>)]\<rparr>"
  using assms
  by (simp add: handleResponse_def lookupPending_def deletePending_def clearTimeout_def Let_def)

lemma handleResponse_absent:
  assumes "lookupPending st (getProp response ''messageID'') = None"
  shows "handleResponse response st =
           st\<lparr>console := console st @ [WarnNoPending (getProp response ''messageID'')]\<rparr>"
  using assms by (simp add: handleResponse_def Let_def)

lemma lookupPending_Some:
  "lookupPending st key = Some e \<Longrightarrow> \<exists>k. key = Some (JStr k) \<and> pendingResponses st k = Some e"
  by (auto simp: lookupPending_def split: option.splits json.splits)

lemma pending_inv_handleResponse:
  assumes inv: "pending_inv st"
  shows "pending_inv (handleResponse response st)"
proof (cases "lookupPending st (getProp response ''messageID'')")
  case None
  have "pending_inv (st\<lparr>console := console st @ [WarnNoPending (getProp response ''messageID'')]\<rparr>)
          = pending_inv st"
    by (rule pending_inv_cong) simp_all
  with inv show ?thesis by (simp add: handleResponse_absent [OF None])
next
  case (Some e)
  from lookupPending_Some [OF Some] obtain k where
    k: "getProp response ''messageID'' = Some (JStr k)" "pendingResponses st k = Some e"
    by blast
  from pi_entry [OF inv k(2)] obtain tm where
    tm: "timers st (timeout e) = Some tm" "t_promise tm = promise e" "t_messageId tm = k"
    by blast
  have "pending_inv
           (st\<lparr>timers := (timers st)(timeout e := None),
               pendingResponses := (pendingResponses st)(k := None),
               settlements := settlements st @ [(t_promise tm, x)]\<rparr>)" for x
  proof (rule pending_inv_settle [OF inv tm(1)])
    fix k' e'
    assume "pendingResponses st k' = Some e'" "timeout e' = timeout e"
    with pi_entry [OF inv this(1)] tm show "k' = k" by auto
  qed
  then show ?thesis by (simp add: handleResponse_found [OF k] tm(2))
qed

lemma sendWithResponse_result:
  "sendWithResponse message messageId st =
     (nextPromise st,
      (if wsOpen st then st\<lparr>sent := sent st @ [message]\<rparr>
       else st\<lparr>console := console st @ [ErrorNotConnected]\<rparr>)
        \<lparr>nextPromise := nextPromise st + 1, nextTimer := nextTimer st + 1,
         timers := (timers st)(nextTimer st \<mapsto>
            \<lparr>fire_at = clock st + 30000, t_messageId = messageId, t_promise = nextPromise st\<rparr>),
         pendingResponses :=
           (pendingResponses st)(messageId \<mapsto> \<lparr>promise = nextPromise st, timeout = nextTimer st\<rparr>)\<rparr>)"
  by (simp add: sendWithResponse_def send_def Let_def)

lemma pending_inv_register:
  assumes inv: "pending_inv st"
  shows "pending_inv
           (st\<lparr>nextPromise := nextPromise st + 1, nextTimer := nextTimer st + 1,
               timers := (timers st)(nextTimer st \<mapsto>
                  \<lparr>fire_at = d, t_messageId = messageId, t_promise = nextPromise st\<rparr>),
               pendingResponses :=
                 (pendingResponses st)(messageId \<mapsto>
                    \<lparr>promise = nextPromise st, timeout = nextTimer st\<rparr>)\<rparr>)"
    (is "pending_inv ?st'")
proof (rule pending_invI)
  fix k e
  assume a: "pendingResponses ?st' k = Some e"
  show "\<exists>tm. timers ?st' (timeout e) = Some tm \<and> t_promise tm = promise e \<and> t_messageId tm = k"
  proof (cases "k = messageId")
    case True
    with a show ?thesis by auto
  next
    case False
    with a have e: "pendingResponses st k = Some e" by simp
    from pi_entry [OF inv e] obtain tm where
      tm: "timers st (timeout e) = Some tm" "t_promise tm = promise e" "t_messageId tm = k"
      by blast
    from pi_timer [OF inv tm(1)] have "timeout e \<noteq> nextTimer st" by simp
    with tm show ?thesis by simp
  qed
next
  fix t tm
  assume a: "timers ?st' t = Some tm"
  have old: "t_promise tm \<notin> fst ` set (settlements st) \<and> t < nextTimer st + 1 \<and>
             t_promise tm < nextPromise st + 1"
  proof (cases "t = nextTimer st")
    case True
    with a have "t_promise tm = nextPromise st" by auto
    with True pi_settled [OF inv, of "nextPromise st"] show ?thesis by auto
  next
    case False
    with a have "timers st t = Some tm" by simp
    from pi_timer [OF inv this] show ?thesis by simp
  qed
  then show "t_promise tm \<notin> fst ` set (settlements ?st')" "t < nextTimer ?st'"
    "t_promise tm < nextPromise ?st'"
    by simp_all
next
  fix t1 t2 tm1 tm2
  assume a: "timers ?st' t1 = Some tm1" "timers ?st' t2 = Some tm2"
    and eq: "t_promise tm1 = t_promise tm2"
  have new: "t_promise tm = nextPromise st \<longleftrightarrow> t = nextTimer st"
    if "timers ?st' t = Some tm" for t tm
  proof (cases "t = nextTimer st")
    case True
    with that show ?thesis by auto
  next
    case False
    with that have "timers st t = Some tm" by simp
    from pi_timer [OF inv this] False show ?thesis by simp
  qed
  show "t1 = t2"
  proof (cases "t1 = nextTimer st \<or> t2 = nextTimer st")
    case True
    with new [OF a(1)] new [OF a(2)] eq show ?thesis by auto
  next
    case False
    with a have "timers st t1 = Some tm1" "timers st t2 = Some tm2" by simp_all
    from pi_unique [OF inv this eq] show ?thesis .
  qed
next
  fix p
  assume "p \<in> fst ` set (settlements ?st')"
  then have "p \<in> fst ` set (settlements st)" by simp
  from pi_settled [OF inv this] show "p < nextPromise ?st'" by simp
next
  from pi_distinct [OF inv] show "distinct (map fst (settlements ?st'))" by simp
qed

lemma pending_inv_sendWithResponse:
  assumes inv: "pending_inv st"
  shows "pending_inv (snd (sendWithResponse message messageId st))"
proof -
  have "pending_inv (snd (sendWithResponse message messageId st))
          = pending_inv
           (st\<lparr>nextPromise := nextPromise st + 1, nextTimer := nextTimer st + 1,
               timers := (timers st)(nextTimer st \<mapsto>
                  \<lparr>fire_at = clock st + 30000, t_messageId = messageId,
                   t_promise = nextPromise st\<rparr>),
               pendingResponses :=
                 (pendingResponses st)(messageId \<mapsto>
                    \<lparr>promise = nextPromise st, timeout = nextTimer st\<rparr>)\<rparr>)"
    by (rule pending_inv_cong) (simp_all add: sendWithResponse_result)
  with pending_inv_register [OF inv] show ?thesis by simp
qed

lemma pending_inv_handleMessage_ws:
  assumes inv: "pending_inv st"
  shows "pending_inv (handleMessage_ws data st)"
proof -
  have "pending_inv (st\<lparr>delivered := delivered st @ [data]\<rparr>) = pending_inv st"
    by (rule pending_inv_cong) simp_all
  with inv pending_inv_handleResponse [OF inv, of data] show ?thesis
    by (simp add: handleMessage_ws_def)
qed

lemma pending_inv_step:
  assumes inv: "pending_inv st"
  shows "pending_inv (step st ev)"
proof (cases ev)
  case (Elapse ms)
  have "pending_inv (st\<lparr>clock := clock st + ms\<rparr>) = pending_inv st"
    by (rule pending_inv_cong) simp_all
  with inv Elapse show ?thesis by simp
next
  case (SocketOpen b)
  have "pending_inv (st\<lparr>wsOpen := b\<rparr>) = pending_inv st"
    by (rule pending_inv_cong) simp_all
  with inv SocketOpen show ?thesis by simp
next
  case (SetMessageCallback b)
  have "pending_inv (st\<lparr>hasMessageCallback := b\<rparr>) = pending_inv st"
    by (rule pending_inv_cong) simp_all
  with inv SetMessageCallback show ?thesis by simp
qed (simp_all add: inv pending_inv_sendWithResponse pending_inv_handleMessage_ws
       pending_inv_handleResponse pending_inv_fireTimer)

lemma pending_inv_run: "pending_inv st \<Longrightarrow> pending_inv (run evs st)"
  unfolding run_def
  by (induction evs arbitrary: st) (simp_all add: pending_inv_step)

text \<open>
  Claim C4. Whatever sequence of sends, incoming frames, replies, due timeouts and
  elapsed time the manager goes through from its initial state, no promise has
  \<open>resolve\<close> or \<open>reject\<close> called on it twice. \<open>sendWithResponse\<close> arms a timeout due
  30000 ms later and stores the entry. A reply that finds its entry deletes it and
  disarms its timeout, so the timeout never runs afterwards; a timeout is not run before
  it is due, and when it runs it deletes the entry and rejects with the timeout error,
  so a reply with that id afterwards finds nothing; and a reply that finds no entry
  writes one warning to the console and changes nothing else.
\<close>

theorem pending_resolved_at_most_once:
  "distinct (map fst (settlements (run evs newManager))) \<and>
   timers (snd (sendWithResponse message messageId st)) (nextTimer st)
     = Some \<lparr>fire_at = clock st + 30000, t_messageId = messageId, t_promise = nextPromise st\<rparr> \<and>
   pendingResponses (snd (sendWithResponse message messageId st)) messageId
     = Some \<lparr>promise = nextPromise st, timeout = nextTimer st\<rparr> \<and>
   (\<forall>k e. getProp response ''messageID'' = Some (JStr k) \<and> pendingResponses st k = Some e \<longrightarrow>
       pendingResponses (handleResponse response st) k = None \<and>
       timers (handleResponse response st) (timeout e) = None \<and>
       (\<exists>x. settlements (handleResponse response st) = settlements st @ [(promise e, x)]) \<and>
       fireTimer (timeout e) (handleResponse response st) = handleResponse response st) \<and>
   (\<forall>tm. timers st t = Some tm \<and> clock st < fire_at tm \<longrightarrow> fireTimer t st = st) \<and>
   (\<forall>tm. timers st t = Some tm \<and> fire_at tm \<le> clock st \<longrightarrow>
       pendingResponses (fireTimer t st) (t_messageId tm) = None \<and>
       timers (fireTimer t st) t = None \<and>
       settlements (fireTimer t st)
         = settlements st @ [(t_promise tm, RejectError timeoutText)] \<and>
       (\<forall>late. getProp late ''messageID'' = Some (JStr (t_messageId tm)) \<longrightarrow>
          handleResponse late (fireTimer t st)
            = (fireTimer t st)
                \<lparr>console := console (fireTimer t st) @
                   [WarnNoPending (Some (JStr (t_messageId tm)))]\<rparr>)) \<and>
   (lookupPending st (getProp response ''messageID'') = None \<longrightarrow>
       handleResponse response st
         = st\<lparr>console := console st @ [WarnNoPending (getProp response ''messageID'')]\<rparr>)"
proof (intro conjI allI impI)
  show "distinct (map fst (settlements (run evs newManager)))"
    by (rule pi_distinct [OF pending_inv_run [OF pending_inv_new]])
next
  show "timers (snd (sendWithResponse message messageId st)) (nextTimer st)
     = Some \<lparr>fire_at = clock st + 30000, t_messageId = messageId, t_promise = nextPromise st\<rparr>"
    by (simp add: sendWithResponse_result)
next
  show "pendingResponses (snd (sendWithResponse message messageId st)) messageId
     = Some \<lparr>promise = nextPromise st, timeout = nextTimer st\<rparr>"
    by (simp add: sendWithResponse_result)
next
  fix k e
  assume a: "getProp response ''messageID'' = Some (JStr k) \<and> pendingResponses st k = Some e"
  then have f: "getProp response ''messageID'' = Some (JStr k)" "pendingResponses st k = Some e"
    by simp_all
  note hr = handleResponse_found [OF f]
  show "pendingResponses (handleResponse response st) k = None" by (simp add: hr)
  show t: "timers (handleResponse response st) (timeout e) = None" by (simp add: hr)
  show "\<exists>x. settlements (handleResponse response st) = settlements st @ [(promise e, x)]"
    by (simp add: hr)
  from t show "fireTimer (timeout e) (handleResponse response st) = handleResponse response st"
    by (simp add: fireTimer_idle)
next
  fix tm
  assume "timers st t = Some tm \<and> clock st < fire_at tm"
  then show "fireTimer t st = st" by (simp add: fireTimer_def)
next
  fix tm
  assume a: "timers st t = Some tm \<and> fire_at tm \<le> clock st"
  then have f: "timers st t = Some tm" "fire_at tm \<le> clock st" by simp_all
  note ft = fireTimer_due [OF f]
  show "pendingResponses (fireTimer t st) (t_messageId tm) = None" by (simp add: ft)
  show "timers (fireTimer t st) t = None" by (simp add: ft)
  show "settlements (fireTimer t st) = settlements st @ [(t_promise tm, RejectError timeoutText)]"
    by (simp add: ft)
  fix late
  assume l: "getProp late ''messageID'' = Some (JStr (t_messageId tm))"
  have "lookupPending (fireTimer t st) (getProp late ''messageID'') = None"
    by (simp add: l lookupPending_def ft)
  from handleResponse_absent [OF this] l
  show "handleResponse late (fireTimer t st)
            = (fireTimer t st)
                \<lparr>console := console (fireTimer t st) @
                   [WarnNoPending (Some (JStr (t_messageId tm)))]\<rparr>"
    by simp
next
  assume "lookupPending st (getProp response ''messageID'') = None"
  then show "handleResponse response st
         = st\<lparr>console := console st @ [WarnNoPending (getProp response ''messageID'')]\<rparr>"
    by (rule handleResponse_absent)
qed

theorem pending_resolved_at_most_once_witness:
  "settlements
     (run [SocketOpen True, SendWithResponse chatRequest ''x'', Elapse 30000, TimerDue 0,
           Elapse 10000, Response lateReply] newManager)
     = [(0, RejectError timeoutText)] \<and>
   console
     (run [SocketOpen True, SendWithResponse chatRequest ''x'', Elapse 30000, TimerDue 0,
           Elapse 10000, Response lateReply] newManager)
     = [WarnNoPending (Some (JStr ''x''))] \<and>
   pendingResponses
     (run [SocketOpen True, SendWithResponse chatRequest ''x'', Elapse 30000, TimerDue 0,
           Elapse 10000, Response lateReply] newManager) ''x''
     = None \<and>
   distinct (map fst (settlements
     (run [SocketOpen True, SendWithResponse chatRequest ''x'', Elapse 30000, TimerDue 0,
           Elapse 10000, Response lateReply] newManager)))"
proof -
  let ?sent = "run [SocketOpen True, SendWithResponse chatRequest ''x'', Elapse 30000] newManager"
  let ?late = "run [SocketOpen True, SendWithResponse chatRequest ''x'', Elapse 30000, TimerDue 0,
                    Elapse 10000] newManager"
  let ?evs = "[SocketOpen True, SendWithResponse chatRequest ''x'', Elapse 30000, TimerDue 0,
               Elapse 10000, Response lateReply]"
  let ?tm = "\<lparr>fire_at = 30000, t_messageId = ''x'', t_promise = 0\<rparr>"
  have due: "timers ?sent 0 = Some ?tm \<and> fire_at ?tm \<le> clock ?sent"
    by (simp add: run_def sendWithResponse_result newManager_def)
  have s0: "settlements ?sent = []" "console ?sent = []"
    by (simp_all add: run_def sendWithResponse_result newManager_def)
  note t = pending_resolved_at_most_once
             [where st = ?sent and t = 0 and evs = ?evs and response = lateReply]
  from t due have fired:
    "pendingResponses (fireTimer 0 ?sent) (t_messageId ?tm) = None"
    "settlements (fireTimer 0 ?sent) = settlements ?sent @ [(t_promise ?tm, RejectError timeoutText)]"
    by blast+
  have late: "?late = (fireTimer 0 ?sent)\<lparr>clock := clock (fireTimer 0 ?sent) + 10000\<rparr>"
    by (simp add: run_def)
  have id: "getProp lateReply ''messageID'' = Some (JStr ''x'')"
    by (simp add: getProp_def lateReply_def)
  have absent: "lookupPending ?late (getProp lateReply ''messageID'') = None"
    using fired(1) by (simp add: late id lookupPending_def)
  from pending_resolved_at_most_once [where st = ?late and response = lateReply] absent
  have warn: "handleResponse lateReply ?late
         = ?late\<lparr>console := console ?late @ [WarnNoPending (getProp lateReply ''messageID'')]\<rparr>"
    by blast
  have final: "run ?evs newManager = handleResponse lateReply ?late"
    by (simp add: run_def)
  have c: "console (fireTimer 0 ?sent) = []"
    using due s0 by (simp add: fireTimer_def)
  from t have d: "distinct (map fst (settlements (run ?evs newManager)))" by blast
  from final warn id
  have final': "run ?evs newManager
                  = ?late\<lparr>console := console ?late @ [WarnNoPending (Some (JStr ''x''))]\<rparr>"
    by (simp only:)
  have ls: "settlements ?late = [(0, RejectError timeoutText)]" "console ?late = []"
    "pendingResponses ?late ''x'' = None"
    using fired s0 c by (simp_all add: late)
  from d show ?thesis by (simp add: final' ls)
qed

section \<open>Claim C1: the acknowledgement of a chat message\<close>

text \<open>
  A frame of the gateway's outbound schema never has a \<open>messageID\<close> property: the
  struct tag spells it \<open>messageId\<close>. \<open>handleMessage\<close> tests \<open>data.messageID\<close>, so such a
  frame is never passed to \<open>handleResponse\<close>.
\<close>

lemma outbound_ack_never_matches:
  "getProp (encodeChatResponse r) ''messageID'' = None"
  "handleMessage_ws (encodeChatResponse r) st
     = (if hasMessageCallback st then st\<lparr>delivered := delivered st @ [encodeChatResponse r]\<rparr>
        else st)"
  by (simp_all add: handleMessage_ws_def getProp_def encodeChatResponse_def)

text \<open>
  Claim C1 says that an acknowledgement of the outbound schema carrying the id of a
  pending chat message, received before the 30-second timeout, settles the promise
  returned by \<open>sendWithResponse\<close>: fulfilled on success, rejected on failure. Evaluated:
  the chat message \<open>m1\<close> is sent, and 100 ms later the gateway's acknowledgement
  \<open>{success: true, messageId: "m1", message: ...}\<close> arrives. The entry is still pending,
  no promise has been settled, and the frame went to the message callback instead; when
  the 30 seconds are over the timeout rejects the promise with the timeout error.
\<close>

theorem ack_frame_not_recognised:
  "getProp ackFrame ''messageId'' = Some (JStr ''m1'') \<and>
   getProp ackFrame ''messageID'' = None \<and>
   pendingResponses
     (run [SocketOpen True, SetMessageCallback True, SendWithResponse chatRequest ''m1'',
           Elapse 100, Incoming ackFrame] newManager) ''m1''
     = Some \<lparr>promise = 0, timeout = 0\<rparr> \<and>
   settlements
     (run [SocketOpen True, SetMessageCallback True, SendWithResponse chatRequest ''m1'',
           Elapse 100, Incoming ackFrame] newManager)
     = [] \<and>
   delivered
     (run [SocketOpen True, SetMessageCallback True, SendWithResponse chatRequest ''m1'',
           Elapse 100, Incoming ackFrame] newManager)
     = [ackFrame] \<and>
   settlements
     (run [SocketOpen True, SetMessageCallback True, SendWithResponse chatRequest ''m1'',
           Elapse 100, Incoming ackFrame, Elapse 29900, TimerDue 0] newManager)
     = [(0, RejectError timeoutText)]"
proof -
  have a: "getProp ackFrame ''messageId'' = Some (JStr ''m1'')"
    "getProp ackFrame ''messageID'' = None"
    by (simp_all add: getProp_def ackFrame_def encodeChatResponse_def)
  have b: "handleMessage_ws ackFrame st
             = (if hasMessageCallback st then st\<lparr>delivered := delivered st @ [ackFrame]\<rparr> else st)"
    for st
    by (simp add: handleMessage_ws_def a)
  show ?thesis
    by (simp add: a b run_def sendWithResponse_def send_def fireTimer_def newManager_def Let_def)
qed

end
